theory Spec2Isabelle
  imports Complex_Main "HOL-Library.AList"
begin

text \<open>
  The move-generating functions of \<^verbatim>\<open>search.py\<close>: the baseline \<^verbatim>\<open>random\<close>,
  \<^verbatim>\<open>minimax\<close>, \<^verbatim>\<open>alphabeta\<close>, \<^verbatim>\<open>stochastic\<close> and its playout \<^verbatim>\<open>stochasticHelper\<close>, as
  functions of HOL. Every function returns \<open>Inr\<close> of its result or \<open>Inl\<close> of the
  exception it ends with. The rules of the game (\<^verbatim>\<open>chess.lib\<close>) are a parameter \<open>L\<close>, the
  float arithmetic of the interpreter is a parameter \<open>A\<close>, the chooser is a function on
  an explicit state, and the recursive functions take the number of nested calls that
  the interpreter still allows.
\<close>

section \<open>Values, errors and move trees\<close>

text \<open>
  The search functions of \<^verbatim>\<open>search.py\<close> start their running extremum at
  \<^verbatim>\<open>-math.inf\<close> or \<^verbatim>\<open>math.inf\<close> and compare the values of boards with it,
  so a value is a real number or one of the two infinities. Board values themselves
  (\<^verbatim>\<open>evaluate(board)\<close>) are finite.
\<close>

datatype xreal = MInf | Fin real | PInf

instantiation xreal :: linorder
begin

fun less_eq_xreal :: "xreal \<Rightarrow> xreal \<Rightarrow> bool" where
  "less_eq_xreal MInf y = True"
| "less_eq_xreal (Fin a) MInf = False"
| "less_eq_xreal (Fin a) (Fin b) = (a \<le> b)"
| "less_eq_xreal (Fin a) PInf = True"
| "less_eq_xreal PInf MInf = False"
| "less_eq_xreal PInf (Fin b) = False"
| "less_eq_xreal PInf PInf = True"

definition less_xreal :: "xreal \<Rightarrow> xreal \<Rightarrow> bool" where
  "less_xreal x y = (x \<le> y \<and> \<not> y \<le> x)"

instance
proof
  fix x y z :: xreal
  show "(x < y) = (x \<le> y \<and> \<not> y \<le> x)"
    by (simp add: less_xreal_def)
  show "x \<le> x"
    by (cases x) simp_all
  show "x \<le> y \<Longrightarrow> y \<le> z \<Longrightarrow> x \<le> z"
    by (cases x; cases y; cases z) simp_all
  show "x \<le> y \<Longrightarrow> y \<le> x \<Longrightarrow> x = y"
    by (cases x; cases y) simp_all
  show "x \<le> y \<or> y \<le> x"
    by (cases x; cases y) auto
qed

end

text \<open>
  The exceptions the search can end with: \<^verbatim>\<open>moves[0]\<close> on an empty list, the division
  \<^verbatim>\<open>sum / breadth\<close> by zero, the interpreter's recursion limit, which is what stops
  a recursion whose depth never reaches 0, and the overflow of an int that is too large
  for a float operation.
\<close>

datatype error = IndexError | ZeroDivisionError | RecursionError | OverflowError

text \<open>
  A move tree is a dict from move keys to move trees. Python dicts keep insertion order
  and \<^verbatim>\<open>d[k] = v\<close> replaces the value of a key that is present, which is
  \<^const>\<open>AList.update\<close> on an association list.
\<close>

datatype 'k moveTree = MoveTree "('k \<times> 'k moveTree) list"

fun entries :: "'k moveTree \<Rightarrow> ('k \<times> 'k moveTree) list" where
  "entries (MoveTree kvs) = kvs"

fun setitem :: "'k \<Rightarrow> 'k moveTree \<Rightarrow> 'k moveTree \<Rightarrow> 'k moveTree" where
  "setitem k v (MoveTree kvs) = MoveTree (AList.update k v kvs)"

fun nodeCount :: "'k moveTree \<Rightarrow> nat" where
  "nodeCount (MoveTree kvs) = sum_list (map (\<lambda>kv. Suc (nodeCount (snd kv))) kvs)"

section \<open>The game rules the search is given\<close>

text \<open>
  A board is a 2-tuple of piece lists, indexed by the side; a piece is a list whose first
  two entries are its square. A move is the list \<^verbatim>\<open>[fro, to, promote]\<close>. The functions
  of \<^verbatim>\<open>chess.lib\<close> are parameters of the development.
\<close>

type_synonym 'a board = "'a list list \<times> 'a list list"
type_synonym ('a, 'p) move = "'a list \<times> 'a list \<times> 'p"
type_synonym ('a, 'p, 'k) result = "xreal \<times> ('a, 'p) move list \<times> 'k moveTree"
type_synonym ('a, 'p, 'k) best = "xreal \<times> ('a, 'p) move \<times> ('a, 'p) move list \<times> 'k moveTree"

record ('a, 'f, 'p, 'k) rules =
  availableMoves :: "bool \<Rightarrow> 'a board \<Rightarrow> 'a list \<Rightarrow> 'f \<Rightarrow> 'a list list"
  getPromote :: "bool \<Rightarrow> 'a board \<Rightarrow> 'a list \<Rightarrow> 'a list \<Rightarrow> 'p"
  makeMove :: "bool \<Rightarrow> 'a board \<Rightarrow> 'a list \<Rightarrow> 'a list \<Rightarrow> 'f \<Rightarrow> 'p \<Rightarrow> bool \<times> 'a board \<times> 'f"
  evaluate :: "'a board \<Rightarrow> real"
  encode :: "'a list \<Rightarrow> 'a list \<Rightarrow> 'p \<Rightarrow> 'k"

definition generateMoves ::
  "('a, 'f, 'p, 'k) rules \<Rightarrow> bool \<Rightarrow> 'a board \<Rightarrow> 'f \<Rightarrow> ('a, 'p) move list" where
  "generateMoves L side board flags =
     concat (map (\<lambda>piece.
        let fro = take 2 piece
        in map (\<lambda>to. (fro, to, getPromote L side board fro to))
               (availableMoves L side board piece flags))
       (if side then snd board else fst board))"

section \<open>minimax\<close>

text \<open>
  The two \<^verbatim>\<open>for move in moves\<close> loops of \<^verbatim>\<open>minimax\<close>; \<open>rec\<close> is the recursive call at
  \<^verbatim>\<open>depth - 1\<close>. An exception of the recursive call ends the loop.
\<close>

fun minimax_max ::
  "('a, 'f, 'p, 'k) rules \<Rightarrow> (bool \<Rightarrow> 'a board \<Rightarrow> 'f \<Rightarrow> error + ('a, 'p, 'k) result) \<Rightarrow>
   bool \<Rightarrow> 'a board \<Rightarrow> 'f \<Rightarrow> ('a, 'p) move list \<Rightarrow> ('a, 'p, 'k) best \<Rightarrow>
   error + ('a, 'p, 'k) best" where
  "minimax_max L rec side board flags [] st = Inr st"
| "minimax_max L rec side board flags (move # moves) (heuristic, bestMove, bestList, moveTree) =
     (case move of (fro, to, promote) \<Rightarrow>
      let encodedMove = encode L fro to promote in
      case makeMove L side board fro to flags promote of (newSide, newBoard, newFlags) \<Rightarrow>
      case rec newSide newBoard newFlags of
        Inl e \<Rightarrow> Inl e
      | Inr (moveValue, moveList_d1, moveTree_d1) \<Rightarrow>
          let moveTree = setitem encodedMove moveTree_d1 moveTree in
          if moveValue > heuristic
          then minimax_max L rec side board flags moves (moveValue, move, moveList_d1, moveTree)
          else minimax_max L rec side board flags moves (heuristic, bestMove, bestList, moveTree))"

fun minimax_min ::
  "('a, 'f, 'p, 'k) rules \<Rightarrow> (bool \<Rightarrow> 'a board \<Rightarrow> 'f \<Rightarrow> error + ('a, 'p, 'k) result) \<Rightarrow>
   bool \<Rightarrow> 'a board \<Rightarrow> 'f \<Rightarrow> ('a, 'p) move list \<Rightarrow> ('a, 'p, 'k) best \<Rightarrow>
   error + ('a, 'p, 'k) best" where
  "minimax_min L rec side board flags [] st = Inr st"
| "minimax_min L rec side board flags (move # moves) (heuristic, bestMove, bestList, moveTree) =
     (case move of (fro, to, promote) \<Rightarrow>
      let encodedMove = encode L fro to promote in
      case makeMove L side board fro to flags promote of (newSide, newBoard, newFlags) \<Rightarrow>
      case rec newSide newBoard newFlags of
        Inl e \<Rightarrow> Inl e
      | Inr (moveValue, moveList_d1, moveTree_d1) \<Rightarrow>
          let moveTree = setitem encodedMove moveTree_d1 moveTree in
          if moveValue < heuristic
          then minimax_min L rec side board flags moves (moveValue, move, moveList_d1, moveTree)
          else minimax_min L rec side board flags moves (heuristic, bestMove, bestList, moveTree))"

text \<open>
  \<^verbatim>\<open>minimax(side, board, flags, depth)\<close>. The first argument \<open>limit\<close> is the number of
  nested calls the interpreter still allows: a call at limit 0 raises RecursionError.
  \<^verbatim>\<open>bestMove = moves[0]\<close> raises IndexError when there is no legal move.
\<close>

fun minimax ::
  "('a, 'f, 'p, 'k) rules \<Rightarrow> nat \<Rightarrow> bool \<Rightarrow> 'a board \<Rightarrow> 'f \<Rightarrow> int \<Rightarrow>
   error + ('a, 'p, 'k) result" where
  "minimax L 0 side board flags depth = Inl RecursionError"
| "minimax L (Suc limit) side board flags depth =
     (if depth = 0 then Inr (Fin (evaluate L board), [], MoveTree [])
      else case generateMoves L side board flags of
        [] \<Rightarrow> Inl IndexError
      | m0 # ms \<Rightarrow>
          if side = False then
            (case minimax_max L (\<lambda>s b f. minimax L limit s b f (depth - 1))
                    side board flags (m0 # ms) (MInf, m0, [], MoveTree []) of
               Inl e \<Rightarrow> Inl e
             | Inr (heuristic, bestMove, bestList, moveTree) \<Rightarrow>
                 Inr (heuristic, bestMove # bestList, moveTree))
          else
            (case minimax_min L (\<lambda>s b f. minimax L limit s b f (depth - 1))
                    side board flags (m0 # ms) (PInf, m0, [], MoveTree []) of
               Inl e \<Rightarrow> Inl e
             | Inr (heuristic, bestMove, bestList, moveTree) \<Rightarrow>
                 Inr (heuristic, bestMove # bestList, moveTree)))"

section \<open>alphabeta\<close>

text \<open>
  The loops of \<^verbatim>\<open>alphabeta\<close>: as in \<^verbatim>\<open>minimax\<close>, then the bound of the node is
  tightened and the loop is left (\<^verbatim>\<open>break\<close>) once \<^verbatim>\<open>beta <= alpha\<close>.
\<close>

fun alphabeta_max ::
  "('a, 'f, 'p, 'k) rules \<Rightarrow>
   (bool \<Rightarrow> 'a board \<Rightarrow> 'f \<Rightarrow> xreal \<Rightarrow> xreal \<Rightarrow> error + ('a, 'p, 'k) result) \<Rightarrow>
   bool \<Rightarrow> 'a board \<Rightarrow> 'f \<Rightarrow> ('a, 'p) move list \<Rightarrow> ('a, 'p, 'k) best \<Rightarrow> xreal \<Rightarrow> xreal \<Rightarrow>
   error + ('a, 'p, 'k) best" where
  "alphabeta_max L rec side board flags [] st alpha beta = Inr st"
| "alphabeta_max L rec side board flags (move # moves) (heuristic, bestMove, bestList, moveTree)
       alpha beta =
     (case move of (fro, to, promote) \<Rightarrow>
      let encodedMove = encode L fro to promote in
      case makeMove L side board fro to flags promote of (newSide, newBoard, newFlags) \<Rightarrow>
      case rec newSide newBoard newFlags alpha beta of
        Inl e \<Rightarrow> Inl e
      | Inr (moveValue, moveList_d1, moveTree_d1) \<Rightarrow>
          let moveTree = setitem encodedMove moveTree_d1 moveTree;
              (heuristic, bestMove, bestList) =
                (if moveValue > heuristic then (moveValue, move, moveList_d1)
                 else (heuristic, bestMove, bestList));
              alpha = max alpha heuristic
          in if beta \<le> alpha then Inr (heuristic, bestMove, bestList, moveTree)
             else alphabeta_max L rec side board flags moves
                    (heuristic, bestMove, bestList, moveTree) alpha beta)"

fun alphabeta_min ::
  "('a, 'f, 'p, 'k) rules \<Rightarrow>
   (bool \<Rightarrow> 'a board \<Rightarrow> 'f \<Rightarrow> xreal \<Rightarrow> xreal \<Rightarrow> error + ('a, 'p, 'k) result) \<Rightarrow>
   bool \<Rightarrow> 'a board \<Rightarrow> 'f \<Rightarrow> ('a, 'p) move list \<Rightarrow> ('a, 'p, 'k) best \<Rightarrow> xreal \<Rightarrow> xreal \<Rightarrow>
   error + ('a, 'p, 'k) best" where
  "alphabeta_min L rec side board flags [] st alpha beta = Inr st"
| "alphabeta_min L rec side board flags (move # moves) (heuristic, bestMove, bestList, moveTree)
       alpha beta =
     (case move of (fro, to, promote) \<Rightarrow>
      let encodedMove = encode L fro to promote in
      case makeMove L side board fro to flags promote of (newSide, newBoard, newFlags) \<Rightarrow>
      case rec newSide newBoard newFlags alpha beta of
        Inl e \<Rightarrow> Inl e
      | Inr (moveValue, moveList_d1, moveTree_d1) \<Rightarrow>
          let moveTree = setitem encodedMove moveTree_d1 moveTree;
              (heuristic, bestMove, bestList) =
                (if moveValue < heuristic then (moveValue, move, moveList_d1)
                 else (heuristic, bestMove, bestList));
              beta = min beta heuristic
          in if beta \<le> alpha then Inr (heuristic, bestMove, bestList, moveTree)
             else alphabeta_min L rec side board flags moves
                    (heuristic, bestMove, bestList, moveTree) alpha beta)"

fun alphabeta ::
  "('a, 'f, 'p, 'k) rules \<Rightarrow> nat \<Rightarrow> bool \<Rightarrow> 'a board \<Rightarrow> 'f \<Rightarrow> int \<Rightarrow> xreal \<Rightarrow> xreal \<Rightarrow>
   error + ('a, 'p, 'k) result" where
  "alphabeta L 0 side board flags depth alpha beta = Inl RecursionError"
| "alphabeta L (Suc limit) side board flags depth alpha beta =
     (if depth = 0 then Inr (Fin (evaluate L board), [], MoveTree [])
      else case generateMoves L side board flags of
        [] \<Rightarrow> Inl IndexError
      | m0 # ms \<Rightarrow>
          if side = False then
            (case alphabeta_max L (\<lambda>s b f. alphabeta L limit s b f (depth - 1))
                    side board flags (m0 # ms) (MInf, m0, [], MoveTree []) alpha beta of
               Inl e \<Rightarrow> Inl e
             | Inr (heuristic, bestMove, bestList, moveTree) \<Rightarrow>
                 Inr (heuristic, bestMove # bestList, moveTree))
          else
            (case alphabeta_min L (\<lambda>s b f. alphabeta L limit s b f (depth - 1))
                    side board flags (m0 # ms) (PInf, m0, [], MoveTree []) alpha beta of
               Inl e \<Rightarrow> Inl e
             | Inr (heuristic, bestMove, bestList, moveTree) \<Rightarrow>
                 Inr (heuristic, bestMove # bestList, moveTree)))"

section \<open>The baseline and the stochastic search\<close>

text \<open>
  \<^verbatim>\<open>stochastic\<close> is the one function that computes with its values: \<^verbatim>\<open>sum += moveValue\<close>
  and \<^verbatim>\<open>sum / breadth\<close>. Python compares numbers exactly, but its \<^verbatim>\<open>+\<close> and \<^verbatim>\<open>/\<close> on
  floats round to a double, may overflow to an infinity, and raise OverflowError on an
  int beyond the range of the doubles. What they return is therefore a parameter of the
  development: \<open>py_add A s x\<close> is the outcome of \<^verbatim>\<open>s + x\<close> and \<open>py_truediv A s n\<close> the
  outcome of \<^verbatim>\<open>s / n\<close> for \<open>s \<noteq> 0\<close> and \<open>n \<noteq> 0\<close>. Two facts of the arithmetic are
  fixed in \<open>truediv\<close>: a division by zero raises ZeroDivisionError, and zero divided
  by a nonzero int is zero. A sum of finite values is finite or, after an overflow, an
  infinity, and so is its quotient by an int: neither is ever a NaN.
\<close>

record arith =
  py_add :: "xreal \<Rightarrow> real \<Rightarrow> error + xreal"
  py_truediv :: "xreal \<Rightarrow> int \<Rightarrow> error + xreal"

definition truediv :: "arith \<Rightarrow> xreal \<Rightarrow> int \<Rightarrow> error + xreal" where
  "truediv A s n =
     (if n = 0 then Inl ZeroDivisionError
      else if s = Fin 0 then Inr (Fin 0)
      else py_truediv A s n)"

text \<open>
  A chooser picks one move of a list, as \<^verbatim>\<open>random.choice\<close> does. It may be random, so it
  reads and advances a state \<open>'s\<close> (the random generator, or the script of a test), and it
  may raise, as \<^verbatim>\<open>random.choice([])\<close> does.
\<close>

type_synonym ('a, 'p, 's) chooser = "('a, 'p) move list \<Rightarrow> 's \<Rightarrow> error + (('a, 'p) move \<times> 's)"

text \<open>
  The baseline \<^verbatim>\<open>random(side, board, flags, chooser)\<close>, named \<open>random_move\<close> here: it
  asks the chooser only when there is a move.
\<close>

definition random_move ::
  "('a, 'f, 'p, 'k) rules \<Rightarrow> bool \<Rightarrow> 'a board \<Rightarrow> 'f \<Rightarrow> ('a, 'p, 's) chooser \<Rightarrow> 's \<Rightarrow>
   error + (('a, 'p, 'k) result \<times> 's)" where
  "random_move L side board flags chooser st =
     (let moves = generateMoves L side board flags in
      if length moves > 0 then
        (case chooser moves st of
           Inl e \<Rightarrow> Inl e
         | Inr (move, st') \<Rightarrow>
             (case move of (fro, to, promote) \<Rightarrow>
              case makeMove L side board fro to flags promote of (newside, newboard, newflags) \<Rightarrow>
              let val = evaluate L newboard
              in Inr ((Fin val, [move], MoveTree [(encode L fro to promote, MoveTree [])]), st')))
      else Inr ((Fin (evaluate L board), [], MoveTree []), st))"

text \<open>\<^verbatim>\<open>stochasticHelper\<close>: one playout that follows the chooser down to depth 0.\<close>

fun stochasticHelper ::
  "('a, 'f, 'p, 'k) rules \<Rightarrow> nat \<Rightarrow> bool \<Rightarrow> 'a board \<Rightarrow> 'f \<Rightarrow> int \<Rightarrow> ('a, 'p, 's) chooser \<Rightarrow> 's \<Rightarrow>
   error + ((real \<times> 'k moveTree) \<times> 's)" where
  "stochasticHelper L 0 side board flags depth chooser st = Inl RecursionError"
| "stochasticHelper L (Suc limit) side board flags depth chooser st =
     (if depth = 0 then Inr ((evaluate L board, MoveTree []), st)
      else
        let moves = generateMoves L side board flags in
        case chooser moves st of
          Inl e \<Rightarrow> Inl e
        | Inr (move, st) \<Rightarrow>
            (case move of (fro, to, promote) \<Rightarrow>
             let encodedMove = encode L fro to promote in
             case makeMove L side board fro to flags promote of (newSide, newBoard, newFlags) \<Rightarrow>
             case stochasticHelper L limit newSide newBoard newFlags (depth - 1) chooser st of
               Inl e \<Rightarrow> Inl e
             | Inr ((moveValue, moveTree_d1), st) \<Rightarrow>
                 Inr ((moveValue, setitem encodedMove moveTree_d1 (MoveTree [])), st)))"

text \<open>
  \<^verbatim>\<open>d.update(other)\<close> stores every item of \<open>other\<close> in \<open>d\<close>, one level deep: a key
  of \<open>other\<close> that \<open>d\<close> has gets the value of \<open>other\<close>.
\<close>

fun dict_update :: "'k moveTree \<Rightarrow> 'k moveTree \<Rightarrow> 'k moveTree" where
  "dict_update d (MoveTree []) = d"
| "dict_update d (MoveTree ((k, v) # kvs)) = dict_update (setitem k v d) (MoveTree kvs)"

text \<open>
  The loop \<^verbatim>\<open>for i in range(breadth)\<close> of \<^verbatim>\<open>stochastic\<close>, on its counter: it adds the
  value of each playout to \<^verbatim>\<open>sum\<close> (here \<open>sum_v\<close>) and merges the playout's tree into
  the entry of the move: \<^verbatim>\<open>update\<close> when the key is present, assignment otherwise.
\<close>

fun sample_loop ::
  "('a, 'f, 'p, 'k) rules \<Rightarrow> arith \<Rightarrow> nat \<Rightarrow> bool \<Rightarrow> 'a board \<Rightarrow> 'f \<Rightarrow> int \<Rightarrow>
   ('a, 'p, 's) chooser \<Rightarrow> 'k \<Rightarrow> nat \<Rightarrow> xreal \<times> 'k moveTree \<times> 's \<Rightarrow>
   error + (xreal \<times> 'k moveTree \<times> 's)" where
  "sample_loop L A limit newSide newBoard newFlags depth chooser encodedMove 0 acc = Inr acc"
| "sample_loop L A limit newSide newBoard newFlags depth chooser encodedMove (Suc i)
       (sum_v, moveTree, st) =
     (case stochasticHelper L limit newSide newBoard newFlags (depth - 1) chooser st of
        Inl e \<Rightarrow> Inl e
      | Inr ((moveValue, moveTree_d1), st) \<Rightarrow>
          (case py_add A sum_v moveValue of
             Inl e \<Rightarrow> Inl e
           | Inr sum_v \<Rightarrow>
               let moveTree =
                     (case map_of (entries moveTree) encodedMove of
                        Some sub \<Rightarrow> setitem encodedMove (dict_update sub moveTree_d1) moveTree
                      | None \<Rightarrow> setitem encodedMove moveTree_d1 moveTree)
               in sample_loop L A limit newSide newBoard newFlags depth chooser encodedMove i
                    (sum_v, moveTree, st)))"

text \<open>
  The two loops \<^verbatim>\<open>for move in moves\<close> of \<^verbatim>\<open>stochastic\<close>: \<^verbatim>\<open>range(breadth)\<close> is empty
  for a breadth below 1, and \<^verbatim>\<open>sum / breadth\<close> raises ZeroDivisionError for breadth 0.
\<close>

fun stochastic_max ::
  "('a, 'f, 'p, 'k) rules \<Rightarrow> arith \<Rightarrow> nat \<Rightarrow> bool \<Rightarrow> 'a board \<Rightarrow> 'f \<Rightarrow> int \<Rightarrow> int \<Rightarrow>
   ('a, 'p, 's) chooser \<Rightarrow> ('a, 'p) move list \<Rightarrow> xreal \<times> ('a, 'p) move \<times> 'k moveTree \<times> 's \<Rightarrow>
   error + (xreal \<times> ('a, 'p) move \<times> 'k moveTree \<times> 's)" where
  "stochastic_max L A limit side board flags depth breadth chooser [] acc = Inr acc"
| "stochastic_max L A limit side board flags depth breadth chooser (move # moves)
       (heuristic, bestMove, moveTree, st) =
     (case move of (fro, to, promote) \<Rightarrow>
      let encodedMove = encode L fro to promote in
      case makeMove L side board fro to flags promote of (newSide, newBoard, newFlags) \<Rightarrow>
      case sample_loop L A limit newSide newBoard newFlags depth chooser encodedMove
             (nat breadth) (Fin 0, moveTree, st) of
        Inl e \<Rightarrow> Inl e
      | Inr (sum_v, moveTree, st) \<Rightarrow>
          (case truediv A sum_v breadth of
             Inl e \<Rightarrow> Inl e
           | Inr average \<Rightarrow>
               if average > heuristic
               then stochastic_max L A limit side board flags depth breadth chooser moves
                      (average, move, moveTree, st)
               else stochastic_max L A limit side board flags depth breadth chooser moves
                      (heuristic, bestMove, moveTree, st)))"

fun stochastic_min ::
  "('a, 'f, 'p, 'k) rules \<Rightarrow> arith \<Rightarrow> nat \<Rightarrow> bool \<Rightarrow> 'a board \<Rightarrow> 'f \<Rightarrow> int \<Rightarrow> int \<Rightarrow>
   ('a, 'p, 's) chooser \<Rightarrow> ('a, 'p) move list \<Rightarrow> xreal \<times> ('a, 'p) move \<times> 'k moveTree \<times> 's \<Rightarrow>
   error + (xreal \<times> ('a, 'p) move \<times> 'k moveTree \<times> 's)" where
  "stochastic_min L A limit side board flags depth breadth chooser [] acc = Inr acc"
| "stochastic_min L A limit side board flags depth breadth chooser (move # moves)
       (heuristic, bestMove, moveTree, st) =
     (case move of (fro, to, promote) \<Rightarrow>
      let encodedMove = encode L fro to promote in
      case makeMove L side board fro to flags promote of (newSide, newBoard, newFlags) \<Rightarrow>
      case sample_loop L A limit newSide newBoard newFlags depth chooser encodedMove
             (nat breadth) (Fin 0, moveTree, st) of
        Inl e \<Rightarrow> Inl e
      | Inr (sum_v, moveTree, st) \<Rightarrow>
          (case truediv A sum_v breadth of
             Inl e \<Rightarrow> Inl e
           | Inr average \<Rightarrow>
               if average < heuristic
               then stochastic_min L A limit side board flags depth breadth chooser moves
                      (average, move, moveTree, st)
               else stochastic_min L A limit side board flags depth breadth chooser moves
                      (heuristic, bestMove, moveTree, st)))"

text \<open>
  \<^verbatim>\<open>stochastic(side, board, flags, depth, breadth, chooser)\<close>; its playouts run one call
  deeper, at \<open>limit\<close>.
\<close>

fun stochastic ::
  "('a, 'f, 'p, 'k) rules \<Rightarrow> arith \<Rightarrow> nat \<Rightarrow> bool \<Rightarrow> 'a board \<Rightarrow> 'f \<Rightarrow> int \<Rightarrow> int \<Rightarrow>
   ('a, 'p, 's) chooser \<Rightarrow> 's \<Rightarrow> error + (('a, 'p, 'k) result \<times> 's)" where
  "stochastic L A 0 side board flags depth breadth chooser st = Inl RecursionError"
| "stochastic L A (Suc limit) side board flags depth breadth chooser st =
     (case generateMoves L side board flags of
        [] \<Rightarrow> Inl IndexError
      | m0 # ms \<Rightarrow>
          if side = False then
            (case stochastic_max L A limit side board flags depth breadth chooser (m0 # ms)
                    (MInf, m0, MoveTree [], st) of
               Inl e \<Rightarrow> Inl e
             | Inr (heuristic, bestMove, moveTree, st) \<Rightarrow>
                 Inr ((heuristic, [bestMove], moveTree), st))
          else
            (case stochastic_min L A limit side board flags depth breadth chooser (m0 # ms)
                    (PInf, m0, MoveTree [], st) of
               Inl e \<Rightarrow> Inl e
             | Inr (heuristic, bestMove, moveTree, st) \<Rightarrow>
                 Inr ((heuristic, [bestMove], moveTree), st)))"

section \<open>Predicates of the statements\<close>

text \<open>
  The recursive call that a loop makes for a move (\<^verbatim>\<open>makeMove\<close>, then the call on the new
  side, board and flags), and the key \<^verbatim>\<open>encode(*move)\<close> the move is stored under.
\<close>

definition child_result ::
  "('a, 'f, 'p, 'k) rules \<Rightarrow> (bool \<Rightarrow> 'a board \<Rightarrow> 'f \<Rightarrow> 'r) \<Rightarrow> bool \<Rightarrow> 'a board \<Rightarrow> 'f \<Rightarrow>
   ('a, 'p) move \<Rightarrow> 'r" where
  "child_result L rec side board flags move =
     (case move of (fro, to, promote) \<Rightarrow>
      case makeMove L side board fro to flags promote of (newSide, newBoard, newFlags) \<Rightarrow>
      rec newSide newBoard newFlags)"

definition key_of :: "('a, 'f, 'p, 'k) rules \<Rightarrow> ('a, 'p) move \<Rightarrow> 'k" where
  "key_of L move = (case move of (fro, to, promote) \<Rightarrow> encode L fro to promote)"

text \<open>
  The contract of the key encoder: at every position, distinct moves get distinct keys.
\<close>

definition keys_distinguish_moves :: "('a, 'f, 'p, 'k) rules \<Rightarrow> bool" where
  "keys_distinguish_moves L =
     (\<forall>side board flags. inj_on (key_of L) (set (generateMoves L side board flags)))"

text \<open>
  A move tree that is a chain of \<open>n\<close> nested single-entry dicts, ending in \<^verbatim>\<open>{}\<close>, and
  the chain that holds the keys \<open>ks\<close>, one per nesting level, from the top.
\<close>

fun is_chain :: "nat \<Rightarrow> 'k moveTree \<Rightarrow> bool" where
  "is_chain 0 t = (t = MoveTree [])"
| "is_chain (Suc n) t = (case entries t of [(k, sub)] \<Rightarrow> is_chain n sub | _ \<Rightarrow> False)"

fun chain_of :: "'k list \<Rightarrow> 'k moveTree" where
  "chain_of [] = MoveTree []"
| "chain_of (k # ks) = MoveTree [(k, chain_of ks)]"

text \<open>
  The path of \<open>n\<close> plies that the chooser selects from a position: at every ply the
  chooser is given the moves of the position and its move is applied. The result is
  the keys of the chosen moves, ply by ply, the board reached and the chooser's state.
\<close>

fun chosen_path ::
  "('a, 'f, 'p, 'k) rules \<Rightarrow> nat \<Rightarrow> bool \<Rightarrow> 'a board \<Rightarrow> 'f \<Rightarrow> ('a, 'p, 's) chooser \<Rightarrow> 's \<Rightarrow>
   error + ('k list \<times> 'a board \<times> 's)" where
  "chosen_path L 0 side board flags chooser st = Inr ([], board, st)"
| "chosen_path L (Suc n) side board flags chooser st =
     (case chooser (generateMoves L side board flags) st of
        Inl e \<Rightarrow> Inl e
      | Inr (move, st1) \<Rightarrow>
          (case child_result L (\<lambda>s b f. chosen_path L n s b f chooser st1) side board flags move of
             Inl e \<Rightarrow> Inl e
           | Inr (ks, leaf, st2) \<Rightarrow> Inr (key_of L move # ks, leaf, st2)))"

text \<open>
  The tie-break rule in the words of the specification. \<open>better side a b\<close>: the value
  \<open>a\<close> is a strict improvement on \<open>b\<close> for the side to move (greater for side False,
  less for side True). \<open>running_best\<close> goes through the values of the visited moves in
  generation order and replaces the running best only on strict improvement.
  \<open>kept_first side trace best\<close>: \<open>best\<close> is the first entry of the trace that attains
  the extremum: every entry before it is strictly worse and no entry after it is better.
\<close>

definition better :: "bool \<Rightarrow> xreal \<Rightarrow> xreal \<Rightarrow> bool" where
  "better side a b = (if side then a < b else b < a)"

fun running_best :: "bool \<Rightarrow> xreal \<times> 'x \<Rightarrow> (xreal \<times> 'x) list \<Rightarrow> xreal \<times> 'x" where
  "running_best side best [] = best"
| "running_best side best (e # es) =
     running_best side (if better side (fst e) (fst best) then e else best) es"

fun kept_first :: "bool \<Rightarrow> (xreal \<times> 'x) list \<Rightarrow> xreal \<times> 'x \<Rightarrow> bool" where
  "kept_first side [] best = False"
| "kept_first side (e # es) best =
     (if e = best then list_all (\<lambda>x. \<not> better side (fst x) (fst best)) es
      else better side (fst best) (fst e) \<and> kept_first side es best)"

text \<open>
  The values that minimax compares: the result of the recursive call on every move, in
  generation order.
\<close>

definition visits ::
  "('a, 'f, 'p, 'k) rules \<Rightarrow> (bool \<Rightarrow> 'a board \<Rightarrow> 'f \<Rightarrow> error + ('a, 'p, 'k) result) \<Rightarrow>
   bool \<Rightarrow> 'a board \<Rightarrow> 'f \<Rightarrow> ('a, 'p) move list \<Rightarrow>
   (xreal \<times> ('a, 'p) move \<times> ('a, 'p) move list) list \<Rightarrow> bool" where
  "visits L rec side board flags moves trace =
     list_all2 (\<lambda>m (v, m', ml). m' = m \<and>
        (\<exists>t. child_result L rec side board flags m = Inr (v, ml, t))) moves trace"

text \<open>
  The values that alphabeta compares, in the words of the specification: the moves are
  visited in generation order, each with the bounds as they stand; after a move the
  running extremum \<open>h\<close> is updated and the bound of the node is tightened with it
  (\<open>alpha\<close> at a maximizer, side False, and \<open>beta\<close> at a minimizer), and once
  \<open>beta \<le> alpha\<close> no further move is visited.
\<close>

fun pruned_visits ::
  "('a, 'f, 'p, 'k) rules \<Rightarrow>
   (bool \<Rightarrow> 'a board \<Rightarrow> 'f \<Rightarrow> xreal \<Rightarrow> xreal \<Rightarrow> error + ('a, 'p, 'k) result) \<Rightarrow>
   bool \<Rightarrow> 'a board \<Rightarrow> 'f \<Rightarrow> ('a, 'p) move list \<Rightarrow> xreal \<Rightarrow> xreal \<Rightarrow> xreal \<Rightarrow>
   error + (xreal \<times> ('a, 'p) move \<times> ('a, 'p) move list) list" where
  "pruned_visits L rec side board flags [] h alpha beta = Inr []"
| "pruned_visits L rec side board flags (m # ms) h alpha beta =
     (case child_result L (\<lambda>s b f. rec s b f alpha beta) side board flags m of
        Inl e \<Rightarrow> Inl e
      | Inr (v, ml, t) \<Rightarrow>
          let h' = (if better side v h then v else h);
              alpha' = (if side then alpha else max alpha h');
              beta' = (if side then min beta h' else beta)
          in if beta' \<le> alpha' then Inr [(v, m, ml)]
             else (case pruned_visits L rec side board flags ms h' alpha' beta' of
                     Inl e \<Rightarrow> Inl e
                   | Inr trace \<Rightarrow> Inr ((v, m, ml) # trace)))"

text \<open>
  The values that stochastic compares, in the words of the specification: for every
  move in generation order, \<^verbatim>\<open>range(breadth)\<close> playouts of depth \<open>depth - 1\<close> are drawn from
  the position after the move, each from the chooser state the one before left, and
  the average of the move is the sum of their values, added one by one to 0, divided by
  breadth, in the arithmetic of the interpreter.
\<close>

fun playouts ::
  "('a, 'f, 'p, 'k) rules \<Rightarrow> nat \<Rightarrow> bool \<Rightarrow> 'a board \<Rightarrow> 'f \<Rightarrow> int \<Rightarrow> ('a, 'p, 's) chooser \<Rightarrow>
   nat \<Rightarrow> 's \<Rightarrow> error + (real list \<times> 's)" where
  "playouts L limit side board flags depth chooser 0 st = Inr ([], st)"
| "playouts L limit side board flags depth chooser (Suc i) st =
     (case stochasticHelper L limit side board flags (depth - 1) chooser st of
        Inl e \<Rightarrow> Inl e
      | Inr ((x, t), st1) \<Rightarrow>
          (case playouts L limit side board flags depth chooser i st1 of
             Inl e \<Rightarrow> Inl e
           | Inr (xs, st2) \<Rightarrow> Inr (x # xs, st2)))"

fun sum_values :: "arith \<Rightarrow> xreal \<Rightarrow> real list \<Rightarrow> error + xreal" where
  "sum_values A s [] = Inr s"
| "sum_values A s (x # xs) =
     (case py_add A s x of Inl e \<Rightarrow> Inl e | Inr s' \<Rightarrow> sum_values A s' xs)"

definition average :: "arith \<Rightarrow> real list \<Rightarrow> int \<Rightarrow> error + xreal" where
  "average A vals breadth =
     (case sum_values A (Fin 0) vals of Inl e \<Rightarrow> Inl e | Inr s \<Rightarrow> truediv A s breadth)"

fun move_averages ::
  "('a, 'f, 'p, 'k) rules \<Rightarrow> arith \<Rightarrow> nat \<Rightarrow> bool \<Rightarrow> 'a board \<Rightarrow> 'f \<Rightarrow> int \<Rightarrow> int \<Rightarrow>
   ('a, 'p, 's) chooser \<Rightarrow> ('a, 'p) move list \<Rightarrow> 's \<Rightarrow>
   error + ((xreal \<times> ('a, 'p) move) list \<times> 's)" where
  "move_averages L A limit side board flags depth breadth chooser [] st = Inr ([], st)"
| "move_averages L A limit side board flags depth breadth chooser (m # ms) st =
     (case child_result L (\<lambda>s b f. playouts L limit s b f depth chooser (nat breadth) st)
             side board flags m of
        Inl e \<Rightarrow> Inl e
      | Inr (vals, st1) \<Rightarrow>
          (case average A vals breadth of
             Inl e \<Rightarrow> Inl e
           | Inr a \<Rightarrow>
               (case move_averages L A limit side board flags depth breadth chooser ms st1 of
                  Inl e \<Rightarrow> Inl e
                | Inr (trace, st2) \<Rightarrow> Inr ((a, m) # trace, st2))))"

section \<open>Predicates of the proofs\<close>

text \<open>
  What a call of alphabeta with bounds \<open>alpha < beta\<close> returns, given the result \<open>r\<close> of
  minimax on the same position: the same value and moves when the value of minimax lies
  strictly between the bounds, and otherwise a value on the same side of the bounds.
\<close>

definition window_ok :: "xreal \<Rightarrow> xreal \<Rightarrow> xreal \<times> 'x \<Rightarrow> xreal \<times> 'x \<Rightarrow> bool" where
  "window_ok alpha beta r r' =
     ((alpha < fst r \<and> fst r < beta \<longrightarrow> r' = r) \<and>
      (fst r \<le> alpha \<longrightarrow> fst r' \<le> alpha) \<and>
      (beta \<le> fst r \<longrightarrow> beta \<le> fst r'))"

definition ab_sound ::
  "(bool \<Rightarrow> 'a board \<Rightarrow> 'f \<Rightarrow> error + ('a, 'p, 'k) result) \<Rightarrow>
   (bool \<Rightarrow> 'a board \<Rightarrow> 'f \<Rightarrow> xreal \<Rightarrow> xreal \<Rightarrow> error + ('a, 'p, 'k) result) \<Rightarrow> bool" where
  "ab_sound rm ra =
     (\<forall>s b f alpha beta v ml t. alpha < beta \<longrightarrow> rm s b f = Inr (v, ml, t) \<longrightarrow>
        (\<exists>v' ml' t'. ra s b f alpha beta = Inr (v', ml', t') \<and>
           window_ok alpha beta (v, ml) (v', ml')))"

text \<open>
  The tree of a result, and the entries that a loop of alphabeta stored: each is the
  tree of the recursive call on a visited move, under some bounds.
\<close>

fun res_tree :: "error + ('a, 'p, 'k) result \<Rightarrow> 'k moveTree" where
  "res_tree (Inl e) = MoveTree []"
| "res_tree (Inr (v, ml, t)) = t"

definition visited_by ::
  "('a, 'f, 'p, 'k) rules \<Rightarrow>
   (bool \<Rightarrow> 'a board \<Rightarrow> 'f \<Rightarrow> xreal \<Rightarrow> xreal \<Rightarrow> error + ('a, 'p, 'k) result) \<Rightarrow>
   bool \<Rightarrow> 'a board \<Rightarrow> 'f \<Rightarrow> ('a, 'p) move list \<Rightarrow> ('k \<times> 'k moveTree) list \<Rightarrow> bool" where
  "visited_by L rec side board flags ms kts =
     (\<forall>(k, t)\<in>set kts. \<exists>m\<in>set ms. k = key_of L m \<and>
        (\<exists>alpha beta v ml. child_result L (\<lambda>s b f. rec s b f alpha beta) side board flags m
            = Inr (v, ml, t)))"

section \<open>Concrete games\<close>

text \<open>
  Games on integer positions, for running the search on concrete inputs. The board holds
  one piece per side, on the current position \<open>n\<close>; \<open>succs side n\<close> lists the positions
  the side may move to, \<open>score n\<close> is the value of position \<open>n\<close>, and \<open>enc fro to\<close> is
  the key of a move: its step \<open>to - fro\<close> (\<open>step_key\<close>), or the pair of its squares where
  the keys must tell all moves apart.
\<close>

fun node_of :: "int list \<Rightarrow> int" where
  "node_of [] = 0"
| "node_of (n # ns) = n"

definition board_at :: "int \<Rightarrow> int board" where
  "board_at n = ([[n]], [[n]])"

definition step_key :: "int list \<Rightarrow> int list \<Rightarrow> int" where
  "step_key fro to = node_of to - node_of fro"

definition positional ::
  "(bool \<Rightarrow> int \<Rightarrow> int list) \<Rightarrow> (int \<Rightarrow> real) \<Rightarrow> (int list \<Rightarrow> int list \<Rightarrow> 'k) \<Rightarrow>
   (int, unit, unit, 'k) rules" where
  "positional succs score enc =
     \<lparr> availableMoves = (\<lambda>side board piece flags. map (\<lambda>n. [n]) (succs side (node_of piece))),
       getPromote = (\<lambda>side board fro to. ()),
       makeMove = (\<lambda>side board fro to flags promote. (\<not> side, board_at (node_of to), flags)),
       evaluate = (\<lambda>board. case fst board of [] \<Rightarrow> 0 | piece # ps \<Rightarrow> score (node_of piece)),
       encode = (\<lambda>fro to promote. enc fro to) \<rparr>"

text \<open>
  The toy game of the specification: the maximizer (side False) steps from \<open>n\<close> to
  \<open>n + 1\<close>, the minimizer to \<open>n - 1\<close>, nobody moves once \<open>|n| \<ge> 3\<close>, and a position
  is worth \<open>n\<close>.
\<close>

definition toy :: "(int, unit, unit, int) rules" where
  "toy = positional
     (\<lambda>side n. if \<bar>n\<bar> \<ge> 3 then [] else [if side then n - 1 else n + 1])
     (\<lambda>n. real_of_int n) step_key"

text \<open>
  A game tree in which position 6, two plies below the root 0, has no move:
  0 leads to 1 and 2, 1 to 3, 3 to 4 (worth 5), 2 to 5 and 6, 5 to 7 (worth 3).
\<close>

definition cut_succs :: "bool \<Rightarrow> int \<Rightarrow> int list" where
  "cut_succs side n =
     (if n = 0 then [1, 2] else if n = 1 then [3] else if n = 3 then [4]
      else if n = 2 then [5, 6] else if n = 5 then [7] else [])"

definition cut_score :: "int \<Rightarrow> real" where
  "cut_score n = (if n = 4 then 5 else if n = 7 then 3 else 0)"

definition cut_game :: "(int, unit, unit, int) rules" where
  "cut_game = positional cut_succs cut_score step_key"

text \<open>
  A chooser for tests: it reads the index of the move to return from a script, raises
  IndexError when the index is out of range, as \<^verbatim>\<open>moves[i]\<close> does, and returns the
  first move once the script is used up (IndexError on an empty list).
\<close>

fun scripted :: "('a, 'p, nat list) chooser" where
  "scripted [] [] = Inl IndexError"
| "scripted (m # ms) [] = Inr (m, [])"
| "scripted moves (i # script) = (if i < length moves then Inr (moves ! i, script) else Inl IndexError)"

text \<open>
  A game in which two playouts share their first two moves and part at the third:
  0 leads to 1, 1 to 2, and 2 to 3 (worth 1) and 4 (worth 3).
\<close>

definition fork_succs :: "bool \<Rightarrow> int \<Rightarrow> int list" where
  "fork_succs side n =
     (if n = 0 then [1] else if n = 1 then [2] else if n = 2 then [3, 4] else [])"

definition fork_score :: "int \<Rightarrow> real" where
  "fork_score n = (if n = 3 then 1 else if n = 4 then 3 else 0)"

definition fork_game :: "(int, unit, unit, int) rules" where
  "fork_game = positional fork_succs fork_score step_key"

text \<open>
  The tree of \<^const>\<open>cut_game\<close> with a move from position 6 (to 8, worth 9), so that minimax
  returns; here the key of a move is the pair of its squares.
\<close>

definition prune_succs :: "bool \<Rightarrow> int \<Rightarrow> int list" where
  "prune_succs side n = (if n = 6 then [8] else cut_succs side n)"

definition prune_score :: "int \<Rightarrow> real" where
  "prune_score n = (if n = 8 then 9 else cut_score n)"

definition prune_game :: "(int, unit, unit, int list \<times> int list) rules" where
  "prune_game = positional prune_succs prune_score Pair"

text \<open>A position with three moves, to positions worth 4, 7 and 7.\<close>

definition tie_succs :: "bool \<Rightarrow> int \<Rightarrow> int list" where
  "tie_succs side n = (if n = 0 then [1, 2, 3] else [])"

definition tie_score :: "int \<Rightarrow> real" where
  "tie_score n = (if n = 1 then 4 else if n = 2 then 7 else if n = 3 then 7 else 0)"

definition tie_game :: "(int, unit, unit, int) rules" where
  "tie_game = positional tie_succs tie_score step_key"

text \<open>
  The arithmetic without rounding: what \<^verbatim>\<open>+\<close> and \<^verbatim>\<open>/\<close> return where the exact sum and
  quotient are doubles, as for the small integers and halves of the games above.
\<close>

definition exact_arith :: arith where
  "exact_arith =
     \<lparr> py_add = (\<lambda>s x. case s of Fin a \<Rightarrow> Inr (Fin (a + x)) | MInf \<Rightarrow> Inr MInf | PInf \<Rightarrow> Inr PInf),
       py_truediv = (\<lambda>s n. case s of
            Fin a \<Rightarrow> Inr (Fin (a / real_of_int n))
          | MInf \<Rightarrow> Inr (if n < 0 then PInf else MInf)
          | PInf \<Rightarrow> Inr (if n < 0 then MInf else PInf)) \<rparr>"

text \<open>
  An arithmetic that rounds: the quotient is rounded down to a multiple of 4, as a
  double rounds to a multiple of its last binary place. The moves of \<^const>\<open>tie_game\<close> worth
  4 and 7 then both average 4.
\<close>

definition coarse_arith :: arith where
  "coarse_arith =
     \<lparr> py_add = py_add exact_arith,
       py_truediv = (\<lambda>s n. case s of
            Fin a \<Rightarrow> Inr (Fin (4 * real_of_int \<lfloor>a / real_of_int n / 4\<rfloor>))
          | MInf \<Rightarrow> Inr MInf
          | PInf \<Rightarrow> Inr PInf) \<rparr>"

section \<open>Order facts\<close>

lemma xreal_less_simps [simp]:
  "MInf < Fin a" "Fin a < PInf" "MInf < PInf" "(Fin a < Fin b) = (a < b)"
  by (auto simp: less_xreal_def)

lemma xreal_MInf_least [simp]: "MInf \<le> x" "\<not> x < MInf"
  by (cases x; simp add: less_xreal_def)+

lemma xreal_PInf_greatest [simp]: "x \<le> PInf" "\<not> PInf < x"
  by (cases x; simp add: less_xreal_def)+

lemma xreal_max_MInf [simp]: "max x MInf = x" "max MInf x = x"
  by (cases x; simp add: max_def)+

lemma xreal_min_PInf [simp]: "min x PInf = x" "min PInf x = x"
  by (cases x; simp add: min_def)+

lemma minimax_max_mono:
  "minimax_max L rm side board flags ms (h, bm, bl, T) = Inr (H, BM, BL, TT) \<Longrightarrow> h \<le> H"
proof (induction ms arbitrary: h bm bl T)
  case Nil
  then show ?case by simp
next
  case (Cons m ms)
  obtain fro to promote where m: "m = (fro, to, promote)" by (cases m) auto
  obtain ns nb nf where mk: "makeMove L side board fro to flags promote = (ns, nb, nf)"
    by (cases "makeMove L side board fro to flags promote") auto
  from Cons.prems(1) obtain v ml t where rm: "rm ns nb nf = Inr (v, ml, t)"
    by (auto simp: m mk split: sum.splits)
  show ?case
  proof (cases "h < v")
    case True
    with Cons.prems have "minimax_max L rm side board flags ms
       (v, m, ml, setitem (encode L fro to promote) t T) = Inr (H, BM, BL, TT)"
      by (simp add: m mk rm)
    from Cons.IH[OF this] True show ?thesis by simp
  next
    case False
    with Cons.prems have "minimax_max L rm side board flags ms
       (h, bm, bl, setitem (encode L fro to promote) t T) = Inr (H, BM, BL, TT)"
      by (simp add: m mk rm)
    from Cons.IH[OF this] show ?thesis .
  qed
qed



lemma minimax_min_mono:
  "minimax_min L rm side board flags ms (h, bm, bl, T) = Inr (H, BM, BL, TT) \<Longrightarrow> H \<le> h"
proof (induction ms arbitrary: h bm bl T)
  case Nil
  then show ?case by simp
next
  case (Cons m ms)
  obtain fro to promote where m: "m = (fro, to, promote)" by (cases m) auto
  obtain ns nb nf where mk: "makeMove L side board fro to flags promote = (ns, nb, nf)"
    by (cases "makeMove L side board fro to flags promote") auto
  from Cons.prems(1) obtain v ml t where rm: "rm ns nb nf = Inr (v, ml, t)"
    by (auto simp: m mk split: sum.splits)
  show ?case
  proof (cases "v < h")
    case True
    with Cons.prems have "minimax_min L rm side board flags ms
       (v, m, ml, setitem (encode L fro to promote) t T) = Inr (H, BM, BL, TT)"
      by (simp add: m mk rm)
    from Cons.IH[OF this] True show ?thesis by simp
  next
    case False
    with Cons.prems have "minimax_min L rm side board flags ms
       (h, bm, bl, setitem (encode L fro to promote) t T) = Inr (H, BM, BL, TT)"
      by (simp add: m mk rm)
    from Cons.IH[OF this] show ?thesis .
  qed
qed

section \<open>Facts about the loops of minimax\<close>

lemma minimax_max_step:
  "minimax_max L rec side board flags (move # moves) (h, bm, bl, T) =
     (case child_result L rec side board flags move of
        Inl e \<Rightarrow> Inl e
      | Inr (v, ml, t) \<Rightarrow>
          minimax_max L rec side board flags moves
            (if h < v then (v, move, ml, setitem (key_of L move) t T)
             else (h, bm, bl, setitem (key_of L move) t T)))"
  by (simp add: child_result_def key_of_def split: prod.splits sum.splits)

lemma minimax_min_step:
  "minimax_min L rec side board flags (move # moves) (h, bm, bl, T) =
     (case child_result L rec side board flags move of
        Inl e \<Rightarrow> Inl e
      | Inr (v, ml, t) \<Rightarrow>
          minimax_min L rec side board flags moves
            (if v < h then (v, move, ml, setitem (key_of L move) t T)
             else (h, bm, bl, setitem (key_of L move) t T)))"
  by (simp add: child_result_def key_of_def split: prod.splits sum.splits)

lemma minimax_max_ge_child:
  "minimax_max L rec side board flags ms (h, bm, bl, T) = Inr (H, BM, BL, TT) \<Longrightarrow>
   m \<in> set ms \<Longrightarrow> child_result L rec side board flags m = Inr (v, ml, t) \<Longrightarrow> v \<le> H"
proof (induction ms arbitrary: h bm bl T)
  case Nil
  then show ?case by simp
next
  case (Cons a ms)
  from Cons.prems(1) obtain va mla ta where
    a: "child_result L rec side board flags a = Inr (va, mla, ta)"
    by (auto simp: minimax_max_step simp del: minimax_max.simps split: sum.splits)
  let ?st = "if h < va then (va, a, mla, setitem (key_of L a) ta T)
             else (h, bm, bl, setitem (key_of L a) ta T)"
  have loop: "minimax_max L rec side board flags ms ?st = Inr (H, BM, BL, TT)"
    using Cons.prems(1) by (simp add: minimax_max_step a del: minimax_max.simps)
  show ?case
  proof (cases "m = a")
    case True
    have "va \<le> fst ?st" by (simp add: not_less)
    moreover have "fst ?st \<le> H"
      using loop by (cases ?st) (auto dest: minimax_max_mono simp del: minimax_max.simps)
    ultimately show ?thesis using True a Cons.prems(3) by simp
  next
    case False
    with Cons.prems(2) have "m \<in> set ms" by simp
    then show ?thesis
      using loop Cons.prems(3) Cons.IH by (cases "h < va") auto
  qed
qed

lemma minimax_min_le_child:
  "minimax_min L rec side board flags ms (h, bm, bl, T) = Inr (H, BM, BL, TT) \<Longrightarrow>
   m \<in> set ms \<Longrightarrow> child_result L rec side board flags m = Inr (v, ml, t) \<Longrightarrow> H \<le> v"
proof (induction ms arbitrary: h bm bl T)
  case Nil
  then show ?case by simp
next
  case (Cons a ms)
  from Cons.prems(1) obtain va mla ta where
    a: "child_result L rec side board flags a = Inr (va, mla, ta)"
    by (auto simp: minimax_min_step simp del: minimax_min.simps split: sum.splits)
  let ?st = "if va < h then (va, a, mla, setitem (key_of L a) ta T)
             else (h, bm, bl, setitem (key_of L a) ta T)"
  have loop: "minimax_min L rec side board flags ms ?st = Inr (H, BM, BL, TT)"
    using Cons.prems(1) by (simp add: minimax_min_step a del: minimax_min.simps)
  show ?case
  proof (cases "m = a")
    case True
    have "fst ?st \<le> va" by (simp add: not_less)
    moreover have "H \<le> fst ?st"
      using loop by (cases ?st) (auto dest: minimax_min_mono simp del: minimax_min.simps)
    ultimately show ?thesis using True a Cons.prems(3) by simp
  next
    case False
    with Cons.prems(2) have "m \<in> set ms" by simp
    then show ?thesis
      using loop Cons.prems(3) Cons.IH by (cases "va < h") auto
  qed
qed


lemma minimax_max_not_PInf:
  shows "\<forall>m\<in>set ms. \<forall>v ml t. child_result L rec side board flags m = Inr (v, ml, t) \<longrightarrow> v \<noteq> PInf \<Longrightarrow>
     minimax_max L rec side board flags ms (h, bm, bl, T) = Inr (H, BM, BL, TT) \<Longrightarrow>
     h \<noteq> PInf \<Longrightarrow> H \<noteq> PInf"
proof (induction ms arbitrary: h bm bl T)
  case Nil
  then show ?case by simp
next
  case (Cons a ms)
  from Cons.prems(2) obtain va mla ta where
    a: "child_result L rec side board flags a = Inr (va, mla, ta)"
    by (auto simp: minimax_max_step simp del: minimax_max.simps split: sum.splits)
  have va: "va \<noteq> PInf" using Cons.prems(1) a by simp
  have rest: "\<forall>m\<in>set ms. \<forall>v ml t. child_result L rec side board flags m = Inr (v, ml, t) \<longrightarrow> v \<noteq> PInf"
    using Cons.prems(1) by simp
  show ?case
  proof (cases "h < va")
    case True
    with Cons.prems(2) a have
      "minimax_max L rec side board flags ms (va, a, mla, setitem (key_of L a) ta T) = Inr (H, BM, BL, TT)"
      by (simp add: minimax_max_step del: minimax_max.simps)
    from Cons.IH[OF rest this va] show ?thesis .
  next
    case False
    with Cons.prems(2) a have
      "minimax_max L rec side board flags ms (h, bm, bl, setitem (key_of L a) ta T) = Inr (H, BM, BL, TT)"
      by (simp add: minimax_max_step del: minimax_max.simps)
    from Cons.IH[OF rest this Cons.prems(3)] show ?thesis .
  qed
qed

lemma minimax_min_not_MInf:
  shows "\<forall>m\<in>set ms. \<forall>v ml t. child_result L rec side board flags m = Inr (v, ml, t) \<longrightarrow> v \<noteq> MInf \<Longrightarrow>
     minimax_min L rec side board flags ms (h, bm, bl, T) = Inr (H, BM, BL, TT) \<Longrightarrow>
     h \<noteq> MInf \<Longrightarrow> H \<noteq> MInf"
proof (induction ms arbitrary: h bm bl T)
  case Nil
  then show ?case by simp
next
  case (Cons a ms)
  from Cons.prems(2) obtain va mla ta where
    a: "child_result L rec side board flags a = Inr (va, mla, ta)"
    by (auto simp: minimax_min_step simp del: minimax_min.simps split: sum.splits)
  have va: "va \<noteq> MInf" using Cons.prems(1) a by simp
  have rest: "\<forall>m\<in>set ms. \<forall>v ml t. child_result L rec side board flags m = Inr (v, ml, t) \<longrightarrow> v \<noteq> MInf"
    using Cons.prems(1) by simp
  show ?case
  proof (cases "va < h")
    case True
    with Cons.prems(2) a have
      "minimax_min L rec side board flags ms (va, a, mla, setitem (key_of L a) ta T) = Inr (H, BM, BL, TT)"
      by (simp add: minimax_min_step del: minimax_min.simps)
    from Cons.IH[OF rest this va] show ?thesis .
  next
    case False
    with Cons.prems(2) a have
      "minimax_min L rec side board flags ms (h, bm, bl, setitem (key_of L a) ta T) = Inr (H, BM, BL, TT)"
      by (simp add: minimax_min_step del: minimax_min.simps)
    from Cons.IH[OF rest this Cons.prems(3)] show ?thesis .
  qed
qed

lemma child_result_Inr:
  "child_result L rec side board flags m = Inr r \<Longrightarrow> \<exists>s b f. rec s b f = Inr r"
  by (auto simp: child_result_def split: prod.splits)

lemma minimax_value_finite:
  "minimax L n side board flags d = Inr (v, ml, t) \<Longrightarrow> \<exists>r. v = Fin r"
proof (induction n arbitrary: side board flags d v ml t)
  case 0
  then show ?case by simp
next
  case (Suc n)
  show ?case
  proof (cases "d = 0")
    case True
    with Suc.prems show ?thesis by auto
  next
    case False
    from Suc.prems False obtain m0 ms where gm: "generateMoves L side board flags = m0 # ms"
      by (cases "generateMoves L side board flags") auto
    let ?rec = "\<lambda>s b f. minimax L n s b f (d - 1)"
    have fin: "\<exists>r. v' = Fin r"
      if "child_result L ?rec side board flags m = Inr (v', ml', t')" for m v' ml' t'
      using child_result_Inr[OF that] Suc.IH by blast
    show ?thesis
    proof (cases side)
      case False
      from Suc.prems \<open>d \<noteq> 0\<close> gm False obtain BM BL where
        loop: "minimax_max L ?rec side board flags (m0 # ms) (MInf, m0, [], MoveTree []) = Inr (v, BM, BL, t)"
        by (auto split: sum.splits)
      from loop obtain v0 ml0 t0 where
        c0: "child_result L ?rec side board flags m0 = Inr (v0, ml0, t0)"
        by (auto simp: minimax_max_step simp del: minimax_max.simps split: sum.splits)
      have "v0 \<le> v" using minimax_max_ge_child[OF loop _ c0] by simp
      moreover have "v \<noteq> PInf"
        using minimax_max_not_PInf[OF _ loop] fin by fastforce
      ultimately show ?thesis using fin[OF c0] by (cases v) auto
    next
      case True
      from Suc.prems \<open>d \<noteq> 0\<close> gm True obtain BM BL where
        loop: "minimax_min L ?rec side board flags (m0 # ms) (PInf, m0, [], MoveTree []) = Inr (v, BM, BL, t)"
        by (auto split: sum.splits)
      from loop obtain v0 ml0 t0 where
        c0: "child_result L ?rec side board flags m0 = Inr (v0, ml0, t0)"
        by (auto simp: minimax_min_step simp del: minimax_min.simps split: sum.splits)
      have "v \<le> v0" using minimax_min_le_child[OF loop _ c0] by simp
      moreover have "v \<noteq> MInf"
        using minimax_min_not_MInf[OF _ loop] fin by fastforce
      ultimately show ?thesis using fin[OF c0] by (cases v) auto
    qed
  qed
qed

section \<open>The loops of alphabeta against those of minimax\<close>

lemma alphabeta_max_sound:
  assumes "ab_sound rm ra"
  shows "minimax_max L rm side board flags ms (h, bm, bl, T) = Inr (H, BM, BL, TT) \<Longrightarrow>
     max alpha0 h' < beta \<Longrightarrow>
     (h \<le> alpha0 \<and> h' \<le> alpha0) \<or> (alpha0 < h \<and> h' = h \<and> bm' = bm \<and> bl' = bl) \<Longrightarrow>
     \<exists>H' BM' BL' TT'.
       alphabeta_max L ra side board flags ms (h', bm', bl', T') (max alpha0 h') beta =
         Inr (H', BM', BL', TT') \<and>
       window_ok alpha0 beta (H, BM, BL) (H', BM', BL')"
proof (induction ms arbitrary: h bm bl T h' bm' bl' T')
  case Nil
  then show ?case by (auto simp: window_ok_def)
next
  case (Cons m ms)
  obtain fro to promote where m: "m = (fro, to, promote)" by (cases m) auto
  obtain ns nb nf where mk: "makeMove L side board fro to flags promote = (ns, nb, nf)"
    by (cases "makeMove L side board fro to flags promote") auto
  from Cons.prems(1) obtain v ml t where rm: "rm ns nb nf = Inr (v, ml, t)"
    by (auto simp: m mk split: sum.splits)
  let ?a = "max alpha0 h'"
  from assms rm Cons.prems(2) obtain v' ml' t' where
    ra: "ra ns nb nf ?a beta = Inr (v', ml', t')" and w: "window_ok ?a beta (v, ml) (v', ml')"
    unfolding ab_sound_def by blast
  let ?T = "setitem (encode L fro to promote) t T"
  let ?T' = "setitem (encode L fro to promote) t' T'"
  let ?h2 = "if h < v then v else h"
  let ?bm2 = "if h < v then m else bm"
  let ?bl2 = "if h < v then ml else bl"
  let ?h2' = "if h' < v' then v' else h'"
  let ?bm2' = "if h' < v' then m else bm'"
  let ?bl2' = "if h' < v' then ml' else bl'"
  have mm: "minimax_max L rm side board flags ms (?h2, ?bm2, ?bl2, ?T) = Inr (H, BM, BL, TT)"
    using Cons.prems(1) by (cases "h < v") (simp_all add: m mk rm)
  have ge: "?h2 \<le> H" using minimax_max_mono[OF mm] .
  show ?case
  proof (cases "beta \<le> max ?a ?h2'")
    case True
    have ab: "alphabeta_max L ra side board flags (m # ms) (h', bm', bl', T') ?a beta
        = Inr (?h2', ?bm2', ?bl2', ?T')"
      using True by (cases "h' < v'") (simp_all add: m mk ra)
    have "beta \<le> ?h2'" using True Cons.prems(2) by (auto simp: max_def split: if_splits)
    moreover have "beta \<le> H"
      using ge True Cons.prems(2,3) w by (auto simp: window_ok_def max_def split: if_splits)
    ultimately show ?thesis
      unfolding ab using Cons.prems(2) by (auto simp: window_ok_def max_def split: if_splits)
  next
    case False
    have eq: "max ?a ?h2' = max alpha0 ?h2'" by (auto simp: max_def)
    have ab0: "alphabeta_max L ra side board flags (m # ms) (h', bm', bl', T') ?a beta
        = alphabeta_max L ra side board flags ms (?h2', ?bm2', ?bl2', ?T') (max ?a ?h2') beta"
      using False by (cases "h' < v'") (simp_all add: m mk ra)
    have ab: "alphabeta_max L ra side board flags (m # ms) (h', bm', bl', T') ?a beta
        = alphabeta_max L ra side board flags ms (?h2', ?bm2', ?bl2', ?T') (max alpha0 ?h2') beta"
      by (simp only: ab0 eq)
    have lt: "max alpha0 ?h2' < beta" using False unfolding eq not_le .
    have inv: "(?h2 \<le> alpha0 \<and> ?h2' \<le> alpha0) \<or>
       (alpha0 < ?h2 \<and> ?h2' = ?h2 \<and> ?bm2' = ?bm2 \<and> ?bl2' = ?bl2)"
      using Cons.prems(2,3) w lt by (auto simp: window_ok_def max_def split: if_splits)
    show ?thesis unfolding ab by (rule Cons.IH[OF mm lt inv])
  qed
qed


lemma alphabeta_min_sound:
  assumes "ab_sound rm ra"
  shows "minimax_min L rm side board flags ms (h, bm, bl, T) = Inr (H, BM, BL, TT) \<Longrightarrow>
     alpha < min beta0 h' \<Longrightarrow>
     (beta0 \<le> h \<and> beta0 \<le> h') \<or> (h < beta0 \<and> h' = h \<and> bm' = bm \<and> bl' = bl) \<Longrightarrow>
     \<exists>H' BM' BL' TT'.
       alphabeta_min L ra side board flags ms (h', bm', bl', T') alpha (min beta0 h') =
         Inr (H', BM', BL', TT') \<and>
       window_ok alpha beta0 (H, BM, BL) (H', BM', BL')"
proof (induction ms arbitrary: h bm bl T h' bm' bl' T')
  case Nil
  then show ?case by (auto simp: window_ok_def)
next
  case (Cons m ms)
  obtain fro to promote where m: "m = (fro, to, promote)" by (cases m) auto
  obtain ns nb nf where mk: "makeMove L side board fro to flags promote = (ns, nb, nf)"
    by (cases "makeMove L side board fro to flags promote") auto
  from Cons.prems(1) obtain v ml t where rm: "rm ns nb nf = Inr (v, ml, t)"
    by (auto simp: m mk split: sum.splits)
  let ?b = "min beta0 h'"
  from assms rm Cons.prems(2) obtain v' ml' t' where
    ra: "ra ns nb nf alpha ?b = Inr (v', ml', t')" and w: "window_ok alpha ?b (v, ml) (v', ml')"
    unfolding ab_sound_def by blast
  let ?T = "setitem (encode L fro to promote) t T"
  let ?T' = "setitem (encode L fro to promote) t' T'"
  let ?h2 = "if v < h then v else h"
  let ?bm2 = "if v < h then m else bm"
  let ?bl2 = "if v < h then ml else bl"
  let ?h2' = "if v' < h' then v' else h'"
  let ?bm2' = "if v' < h' then m else bm'"
  let ?bl2' = "if v' < h' then ml' else bl'"
  have mm: "minimax_min L rm side board flags ms (?h2, ?bm2, ?bl2, ?T) = Inr (H, BM, BL, TT)"
    using Cons.prems(1) by (cases "v < h") (simp_all add: m mk rm)
  have ge: "H \<le> ?h2" using minimax_min_mono[OF mm] .
  show ?case
  proof (cases "min ?b ?h2' \<le> alpha")
    case True
    have ab: "alphabeta_min L ra side board flags (m # ms) (h', bm', bl', T') alpha ?b
        = Inr (?h2', ?bm2', ?bl2', ?T')"
      using True by (cases "v' < h'") (simp_all add: m mk ra)
    have "?h2' \<le> alpha" using True Cons.prems(2) by (auto simp: min_def split: if_splits)
    moreover have "H \<le> alpha"
      using ge True Cons.prems(2,3) w by (auto simp: window_ok_def min_def split: if_splits)
    ultimately show ?thesis
      unfolding ab using Cons.prems(2) by (auto simp: window_ok_def min_def split: if_splits)
  next
    case False
    have eq: "min ?b ?h2' = min beta0 ?h2'" by (auto simp: min_def)
    have ab0: "alphabeta_min L ra side board flags (m # ms) (h', bm', bl', T') alpha ?b
        = alphabeta_min L ra side board flags ms (?h2', ?bm2', ?bl2', ?T') alpha (min ?b ?h2')"
      using False by (cases "v' < h'") (simp_all add: m mk ra)
    have ab: "alphabeta_min L ra side board flags (m # ms) (h', bm', bl', T') alpha ?b
        = alphabeta_min L ra side board flags ms (?h2', ?bm2', ?bl2', ?T') alpha (min beta0 ?h2')"
      by (simp only: ab0 eq)
    have lt: "alpha < min beta0 ?h2'" using False unfolding eq not_le .
    have inv: "(beta0 \<le> ?h2 \<and> beta0 \<le> ?h2') \<or>
       (?h2 < beta0 \<and> ?h2' = ?h2 \<and> ?bm2' = ?bm2 \<and> ?bl2' = ?bl2)"
      using Cons.prems(2,3) w lt by (auto simp: window_ok_def min_def split: if_splits)
    show ?thesis unfolding ab by (rule Cons.IH[OF mm lt inv])
  qed
qed

lemma window_ok_cons:
  "window_ok alpha beta (H, BM, BL) (H', BM', BL') \<Longrightarrow>
   window_ok alpha beta (H, BM # BL) (H', BM' # BL')"
  by (auto simp: window_ok_def)

lemma alphabeta_sound:
  "ab_sound (\<lambda>s b f. minimax L n s b f d) (\<lambda>s b f. alphabeta L n s b f d)"
proof (induction n arbitrary: d)
  case 0
  show ?case by (simp add: ab_sound_def)
next
  case (Suc n)
  show ?case
    unfolding ab_sound_def
  proof (intro allI impI)
    fix s b f alpha beta v ml t
    assume ab: "alpha < (beta::xreal)"
      and mm: "minimax L (Suc n) s b f d = Inr (v, ml, t)"
    show "\<exists>v' ml' t'. alphabeta L (Suc n) s b f d alpha beta = Inr (v', ml', t') \<and>
            window_ok alpha beta (v, ml) (v', ml')"
    proof (cases "d = 0")
      case True
      with mm show ?thesis by (auto simp: window_ok_def)
    next
      case False
      from mm False obtain m0 ms where gm: "generateMoves L s b f = m0 # ms"
        by (cases "generateMoves L s b f") auto
      show ?thesis
      proof (cases s)
        case False
        note sF = this
        from mm \<open>d \<noteq> 0\<close> gm sF obtain H BM BL where
          loop: "minimax_max L (\<lambda>s b f. minimax L n s b f (d - 1)) s b f (m0 # ms)
                   (MInf, m0, [], MoveTree []) = Inr (H, BM, BL, t)"
          and res: "v = H" "ml = BM # BL"
          by (auto split: sum.splits)
        have "max alpha MInf < beta" using ab by simp
        from alphabeta_max_sound[OF Suc.IH[of "d - 1"] loop this,
            where bm' = m0 and bl' = "[]" and T' = "MoveTree []"]
        obtain H' BM' BL' TT' where
          "alphabeta_max L (\<lambda>s b f. alphabeta L n s b f (d - 1)) s b f (m0 # ms)
             (MInf, m0, [], MoveTree []) (max alpha MInf) beta = Inr (H', BM', BL', TT')"
          and "window_ok alpha beta (H, BM, BL) (H', BM', BL')"
          by auto
        then show ?thesis
          using \<open>d \<noteq> 0\<close> gm sF res by (auto dest: window_ok_cons)
      next
        case True
        note sT = this
        from mm \<open>d \<noteq> 0\<close> gm sT obtain H BM BL where
          loop: "minimax_min L (\<lambda>s b f. minimax L n s b f (d - 1)) s b f (m0 # ms)
                   (PInf, m0, [], MoveTree []) = Inr (H, BM, BL, t)"
          and res: "v = H" "ml = BM # BL"
          by (auto split: sum.splits)
        have "alpha < min beta PInf" using ab by simp
        from alphabeta_min_sound[OF Suc.IH[of "d - 1"] loop this,
            where bm' = m0 and bl' = "[]" and T' = "MoveTree []"]
        obtain H' BM' BL' TT' where
          "alphabeta_min L (\<lambda>s b f. alphabeta L n s b f (d - 1)) s b f (m0 # ms)
             (PInf, m0, [], MoveTree []) alpha (min beta PInf) = Inr (H', BM', BL', TT')"
          and "window_ok alpha beta (H, BM, BL) (H', BM', BL')"
          by auto
        then show ?thesis
          using \<open>d \<noteq> 0\<close> gm sT res by (auto dest: window_ok_cons)
      qed
    qed
  qed
qed

section \<open>One iteration of the loops of alphabeta; negative depths\<close>

lemma alphabeta_max_step:
  "alphabeta_max L rec side board flags (move # moves) (h, bm, bl, T) alpha beta =
     (case child_result L (\<lambda>s b f. rec s b f alpha beta) side board flags move of
        Inl e \<Rightarrow> Inl e
      | Inr (v, ml, t) \<Rightarrow>
          if beta \<le> max alpha (max h v)
          then Inr (if h < v then (v, move, ml, setitem (key_of L move) t T)
                    else (h, bm, bl, setitem (key_of L move) t T))
          else alphabeta_max L rec side board flags moves
                 (if h < v then (v, move, ml, setitem (key_of L move) t T)
                  else (h, bm, bl, setitem (key_of L move) t T))
                 (max alpha (max h v)) beta)"
  by (auto simp: child_result_def key_of_def max_def split: prod.splits sum.splits)

lemma alphabeta_min_step:
  "alphabeta_min L rec side board flags (move # moves) (h, bm, bl, T) alpha beta =
     (case child_result L (\<lambda>s b f. rec s b f alpha beta) side board flags move of
        Inl e \<Rightarrow> Inl e
      | Inr (v, ml, t) \<Rightarrow>
          if min beta (min h v) \<le> alpha
          then Inr (if v < h then (v, move, ml, setitem (key_of L move) t T)
                    else (h, bm, bl, setitem (key_of L move) t T))
          else alphabeta_min L rec side board flags moves
                 (if v < h then (v, move, ml, setitem (key_of L move) t T)
                  else (h, bm, bl, setitem (key_of L move) t T))
                 alpha (min beta (min h v)))"
  by (auto simp: child_result_def key_of_def min_def split: prod.splits sum.splits)

lemma child_result_Inl:
  "(\<And>s b f. rec s b f = Inl IndexError \<or> rec s b f = Inl RecursionError) \<Longrightarrow>
   child_result L rec side board flags m = Inl IndexError \<or>
   child_result L rec side board flags m = Inl RecursionError"
  by (auto simp: child_result_def split: prod.splits)

lemma minimax_negative_depth:
  "depth < 0 \<Longrightarrow>
   minimax L limit side board flags depth = Inl IndexError \<or>
   minimax L limit side board flags depth = Inl RecursionError"
proof (induction limit arbitrary: side board flags depth)
  case 0
  show ?case by simp
next
  case (Suc n)
  have d: "depth - 1 < 0" "depth \<noteq> 0" using Suc.prems by auto
  let ?rec = "\<lambda>s b f. minimax L n s b f (depth - 1)"
  have c: "child_result L ?rec side board flags m = Inl IndexError \<or>
           child_result L ?rec side board flags m = Inl RecursionError" for m
    by (rule child_result_Inl) (rule Suc.IH[OF d(1)])
  show ?case
  proof (cases "generateMoves L side board flags")
    case Nil
    with d show ?thesis by simp
  next
    case (Cons m0 ms)
    with d c[of m0] show ?thesis
      by (cases side) (auto simp: minimax_max_step minimax_min_step
            simp del: minimax_max.simps minimax_min.simps)
  qed
qed

lemma alphabeta_negative_depth:
  "depth < 0 \<Longrightarrow>
   alphabeta L limit side board flags depth alpha beta = Inl IndexError \<or>
   alphabeta L limit side board flags depth alpha beta = Inl RecursionError"
proof (induction limit arbitrary: side board flags depth alpha beta)
  case 0
  show ?case by simp
next
  case (Suc n)
  have d: "depth - 1 < 0" "depth \<noteq> 0" using Suc.prems by auto
  let ?rec = "\<lambda>s b f. alphabeta L n s b f (depth - 1) alpha beta"
  have c: "child_result L ?rec side board flags m = Inl IndexError \<or>
           child_result L ?rec side board flags m = Inl RecursionError" for m
    by (rule child_result_Inl) (rule Suc.IH[OF d(1)])
  show ?case
  proof (cases "generateMoves L side board flags")
    case Nil
    with d show ?thesis by simp
  next
    case (Cons m0 ms)
    with d c[of m0] show ?thesis
      by (cases side) (auto simp: alphabeta_max_step alphabeta_min_step
            simp del: alphabeta_max.simps alphabeta_min.simps)
  qed
qed

lemma stochasticHelper_negative_depth:
  "depth < 0 \<Longrightarrow> \<exists>e. stochasticHelper L limit side board flags depth chooser st = Inl e"
proof (induction limit arbitrary: side board flags depth st)
  case 0
  show ?case by simp
next
  case (Suc n)
  have d: "depth - 1 < 0" "depth \<noteq> 0" using Suc.prems by auto
  show ?case
  proof (cases "chooser (generateMoves L side board flags) st")
    case (Inl e)
    with d show ?thesis by simp
  next
    case (Inr r)
    obtain fro to promote st1 where r: "r = ((fro, to, promote), st1)" by (cases r) auto
    obtain ns nb nf where mk: "makeMove L side board fro to flags promote = (ns, nb, nf)"
      by (cases "makeMove L side board fro to flags promote") auto
    from Suc.IH[OF d(1), of ns nb nf st1] obtain e where
      "stochasticHelper L n ns nb nf (depth - 1) chooser st1 = Inl e" ..
    with d Inr r mk show ?thesis by simp
  qed
qed

section \<open>The concrete games\<close>

lemma gm_positional [simp]:
  "generateMoves (positional succs score enc) side (board_at n) flags =
     map (\<lambda>k. ([n], [k], ())) (succs side n)"
  by (simp add: generateMoves_def positional_def board_at_def)

lemma positional_sel [simp]:
  "makeMove (positional succs score enc) side board fro to flags promote =
     (\<not> side, board_at (node_of to), flags)"
  "evaluate (positional succs score enc) (board_at n) = score n"
  by (simp_all add: positional_def board_at_def)

lemma key_of_positional [simp]: "key_of (positional succs score enc) (fro, to, p) = enc fro to"
  by (simp add: key_of_def positional_def)

lemma prune_game_keys: "keys_distinguish_moves prune_game"
  unfolding keys_distinguish_moves_def prune_game_def
  by (auto intro!: inj_onI)

section \<open>One iteration of the loops of stochastic; breadths and depths out of range\<close>

lemma truediv_zero [simp]: "truediv A s 0 = Inl ZeroDivisionError"
  by (simp add: truediv_def)

lemma truediv_of_zero [simp]: "n \<noteq> 0 \<Longrightarrow> truediv A (Fin 0) n = Inr (Fin 0)"
  by (simp add: truediv_def)

lemma stochastic_max_step:
  "stochastic_max L A limit side board flags depth breadth chooser (move # moves) (h, bm, T, st) =
     (case child_result L (\<lambda>s b f. sample_loop L A limit s b f depth chooser (key_of L move)
              (nat breadth) (Fin 0, T, st)) side board flags move of
        Inl e \<Rightarrow> Inl e
      | Inr (tot, T', st') \<Rightarrow>
          (case truediv A tot breadth of
             Inl e \<Rightarrow> Inl e
           | Inr a \<Rightarrow>
               stochastic_max L A limit side board flags depth breadth chooser moves
                 (if h < a then (a, move, T', st') else (h, bm, T', st'))))"
  by (auto simp: child_result_def key_of_def split: prod.splits sum.splits)

lemma stochastic_min_step:
  "stochastic_min L A limit side board flags depth breadth chooser (move # moves) (h, bm, T, st) =
     (case child_result L (\<lambda>s b f. sample_loop L A limit s b f depth chooser (key_of L move)
              (nat breadth) (Fin 0, T, st)) side board flags move of
        Inl e \<Rightarrow> Inl e
      | Inr (tot, T', st') \<Rightarrow>
          (case truediv A tot breadth of
             Inl e \<Rightarrow> Inl e
           | Inr a \<Rightarrow>
               stochastic_min L A limit side board flags depth breadth chooser moves
                 (if a < h then (a, move, T', st') else (h, bm, T', st'))))"
  by (auto simp: child_result_def key_of_def split: prod.splits sum.splits)

lemma child_result_const [simp]: "child_result L (\<lambda>s b f. c) side board flags m = c"
  by (simp add: child_result_def split: prod.splits)

lemma stochastic_max_negative_breadth:
  "breadth < 0 \<Longrightarrow>
   stochastic_max L A limit side board flags depth breadth chooser ms (Fin 0, bm, T, st) =
     Inr (Fin 0, bm, T, st)"
  by (induction ms) (simp_all add: stochastic_max_step del: stochastic_max.simps(2))

lemma stochastic_min_negative_breadth:
  "breadth < 0 \<Longrightarrow>
   stochastic_min L A limit side board flags depth breadth chooser ms (Fin 0, bm, T, st) =
     Inr (Fin 0, bm, T, st)"
  by (induction ms) (simp_all add: stochastic_min_step del: stochastic_min.simps(2))

lemma stochastic_negative_breadth:
  assumes "breadth < 0" and "generateMoves L side board flags = m # ms"
  shows "stochastic L A (Suc limit) side board flags depth breadth chooser st =
           Inr ((Fin 0, [m], MoveTree []), st)"
  using assms
  by (simp add: stochastic_max_step stochastic_min_step stochastic_max_negative_breadth
        stochastic_min_negative_breadth del: stochastic_max.simps(2) stochastic_min.simps(2))

lemma stochastic_zero_breadth:
  assumes "generateMoves L side board flags \<noteq> []"
  shows "stochastic L A (Suc limit) side board flags depth 0 chooser st = Inl ZeroDivisionError"
  using assms
  by (cases "generateMoves L side board flags")
     (simp_all add: stochastic_max_step stochastic_min_step
        del: stochastic_max.simps(2) stochastic_min.simps(2))

lemma sample_loop_negative_depth:
  assumes "depth < 0"
  shows "\<exists>e. sample_loop L A limit ns nb nf depth chooser k (Suc i) (tot, T, st) = Inl e"
proof -
  have "depth - 1 < 0" using assms by simp
  from stochasticHelper_negative_depth[OF this, of L limit ns nb nf chooser st] obtain e where
    "stochasticHelper L limit ns nb nf (depth - 1) chooser st = Inl e" ..
  then show ?thesis by simp
qed

lemma child_result_error:
  "(\<And>s b f. \<exists>e. rec s b f = Inl e) \<Longrightarrow> \<exists>e. child_result L rec side board flags m = Inl e"
  by (simp add: child_result_def split: prod.splits)

lemma child_sample_negative_depth:
  assumes "depth < 0"
  shows "\<exists>e. child_result L (\<lambda>s b f. sample_loop L A limit s b f depth chooser k (Suc i) (tot, T, st))
            side board flags m = Inl e"
  by (rule child_result_error) (rule sample_loop_negative_depth[OF assms])

lemma stochastic_negative_depth:
  assumes "depth < 0" and "0 < breadth"
  shows "\<exists>e. stochastic L A limit side board flags depth breadth chooser st = Inl e"
proof (cases limit)
  case 0
  then show ?thesis by simp
next
  case (Suc n)
  from assms(2) obtain i where i: "nat breadth = Suc i" by (cases "nat breadth") auto
  show ?thesis
  proof (cases "generateMoves L side board flags")
    case Nil
    with Suc show ?thesis by simp
  next
    case (Cons m0 ms)
    from child_sample_negative_depth[OF assms(1), of L A n chooser "key_of L m0" i "Fin 0" "MoveTree []" st side board flags m0]
    obtain e where "child_result L (\<lambda>s b f. sample_loop L A n s b f depth chooser (key_of L m0)
              (nat breadth) (Fin 0, MoveTree [], st)) side board flags m0 = Inl e"
      unfolding i by blast
    with Suc Cons show ?thesis
      by (cases side) (simp_all add: stochastic_max_step stochastic_min_step
            del: stochastic_max.simps(2) stochastic_min.simps(2))
  qed
qed

section \<open>The move trees of minimax and alphabeta\<close>

lemma entries_setitem [simp]: "entries (setitem k v T) = AList.update k v (entries T)"
  by (cases T) simp

lemma nodeCount_entries: "nodeCount T = sum_list (map (\<lambda>kv. Suc (nodeCount (snd kv))) (entries T))"
  by (cases T) simp

lemma sum_list_dominated:
  fixes g :: "'v \<Rightarrow> nat"
  shows "distinct (map fst xs) \<Longrightarrow>
     \<forall>(k, v)\<in>set xs. \<exists>w. (k, w) \<in> set ys \<and> g v \<le> g w \<Longrightarrow>
     sum_list (map (\<lambda>kv. Suc (g (snd kv))) xs) \<le> sum_list (map (\<lambda>kv. Suc (g (snd kv))) ys)"
proof (induction xs arbitrary: ys)
  case Nil
  then show ?case by simp
next
  case (Cons x xs)
  obtain k v where x: "x = (k, v)" by (cases x) auto
  from Cons.prems(2) x obtain w where w: "(k, w) \<in> set ys" "g v \<le> g w" by auto
  let ?ys = "remove1 (k, w) ys"
  have split: "sum_list (map (\<lambda>kv. Suc (g (snd kv))) ys) =
      Suc (g w) + sum_list (map (\<lambda>kv. Suc (g (snd kv))) ?ys)"
    using sum_list_map_remove1[OF w(1), of "\<lambda>kv. Suc (g (snd kv))"] by simp
  have d: "distinct (map fst xs)" and nk: "k \<notin> fst ` set xs"
    using Cons.prems(1) x by auto
  have "\<forall>(k', v')\<in>set xs. \<exists>w'. (k', w') \<in> set ?ys \<and> g v' \<le> g w'"
  proof (clarify)
    fix k' v' assume in_xs: "(k', v') \<in> set xs"
    with Cons.prems(2) obtain w' where w': "(k', w') \<in> set ys" "g v' \<le> g w'" by fastforce
    from in_xs nk have "k' \<noteq> k" by force
    then have "(k', w') \<in> set ?ys" using w'(1) by simp
    with w'(2) show "\<exists>w'. (k', w') \<in> set ?ys \<and> g v' \<le> g w'" by blast
  qed
  from Cons.IH[OF d this] split w(2) x show ?case by simp
qed

lemma minimax_max_children:
  "minimax_max L rec side board flags ms (h, bm, bl, T) = Inr (H, BM, BL, TT) \<Longrightarrow>
   m \<in> set ms \<Longrightarrow> \<exists>v ml t. child_result L rec side board flags m = Inr (v, ml, t)"
proof (induction ms arbitrary: h bm bl T)
  case Nil
  then show ?case by simp
next
  case (Cons a ms)
  from Cons.prems(1) obtain va mla ta where
    a: "child_result L rec side board flags a = Inr (va, mla, ta)"
    by (auto simp: minimax_max_step simp del: minimax_max.simps split: sum.splits)
  show ?case
  proof (cases "m = a")
    case True
    with a show ?thesis by blast
  next
    case False
    with Cons.prems(2) have "m \<in> set ms" by simp
    moreover from Cons.prems(1) a obtain st where
      "minimax_max L rec side board flags ms st = Inr (H, BM, BL, TT)"
      by (simp add: minimax_max_step del: minimax_max.simps)
    ultimately show ?thesis using Cons.IH by (cases st) blast
  qed
qed


lemma minimax_min_children:
  "minimax_min L rec side board flags ms (h, bm, bl, T) = Inr (H, BM, BL, TT) \<Longrightarrow>
   m \<in> set ms \<Longrightarrow> \<exists>v ml t. child_result L rec side board flags m = Inr (v, ml, t)"
proof (induction ms arbitrary: h bm bl T)
  case Nil
  then show ?case by simp
next
  case (Cons a ms)
  from Cons.prems(1) obtain va mla ta where
    a: "child_result L rec side board flags a = Inr (va, mla, ta)"
    by (auto simp: minimax_min_step simp del: minimax_min.simps split: sum.splits)
  show ?case
  proof (cases "m = a")
    case True
    with a show ?thesis by blast
  next
    case False
    with Cons.prems(2) have "m \<in> set ms" by simp
    moreover from Cons.prems(1) a obtain st where
      "minimax_min L rec side board flags ms st = Inr (H, BM, BL, TT)"
      by (simp add: minimax_min_step del: minimax_min.simps)
    ultimately show ?thesis using Cons.IH by (cases st) blast
  qed
qed


lemma dict_update_distinct:
  "distinct (map fst (entries d)) \<Longrightarrow> distinct (map fst (entries (dict_update d (MoveTree kts))))"
proof (induction kts arbitrary: d)
  case Nil
  then show ?case by simp
next
  case (Cons kt kts)
  obtain k t where kt: "kt = (k, t)" by (cases kt) auto
  have "distinct (map fst (entries (setitem k t d)))"
    using Cons.prems by (simp add: distinct_update)
  from Cons.IH[OF this] kt show ?case by simp
qed

lemma dict_update_other:
  "k \<notin> fst ` set kts \<Longrightarrow>
   map_of (entries (dict_update d (MoveTree kts))) k = map_of (entries d) k"
proof (induction kts arbitrary: d)
  case Nil
  then show ?case by simp
next
  case (Cons kt kts)
  obtain k0 t0 where kt: "kt = (k0, t0)" by (cases kt) auto
  from Cons.prems kt have "k \<noteq> k0" "k \<notin> fst ` set kts" by auto
  with Cons.IH[of "setitem k0 t0 d"] kt show ?case by (simp add: update_conv')
qed

lemma dict_update_from:
  "map_of (entries (dict_update d (MoveTree kts))) k = Some t \<Longrightarrow>
   map_of (entries d) k = Some t \<or> (k, t) \<in> set kts"
proof (induction kts arbitrary: d)
  case Nil
  then show ?case by simp
next
  case (Cons kt kts)
  obtain k0 t0 where kt: "kt = (k0, t0)" by (cases kt) auto
  from Cons.prems kt have
    "map_of (entries (dict_update (setitem k0 t0 d) (MoveTree kts))) k = Some t" by simp
  from Cons.IH[OF this] kt show ?case
    by (auto simp: update_conv' split: if_splits)
qed

lemma dict_update_has:
  "(k, t) \<in> set kts \<Longrightarrow> \<forall>t'. (k, t') \<in> set kts \<longrightarrow> t' = t \<Longrightarrow>
   map_of (entries (dict_update d (MoveTree kts))) k = Some t"
proof (induction kts arbitrary: d)
  case Nil
  then show ?case by simp
next
  case (Cons kt kts)
  obtain k0 t0 where kt: "kt = (k0, t0)" by (cases kt) auto
  show ?case
  proof (cases "(k, t) \<in> set kts")
    case True
    from Cons.IH[OF True, of "setitem k0 t0 d"] Cons.prems(2) kt show ?thesis by simp
  next
    case False
    with Cons.prems(1) kt have eq: "k0 = k" "t0 = t" by auto
    have "k \<notin> fst ` set kts"
    proof
      assume "k \<in> fst ` set kts"
      then obtain t' where "(k, t') \<in> set kts" by force
      with Cons.prems(2) False show False by auto
    qed
    from dict_update_other[OF this, of "setitem k t d"] kt eq show ?thesis
      by (simp add: update_conv')
  qed
qed

lemma minimax_max_tree:
  "minimax_max L rec side board flags ms (h, bm, bl, T) = Inr (H, BM, BL, TT) \<Longrightarrow>
   TT = dict_update T
          (MoveTree (map (\<lambda>m. (key_of L m, res_tree (child_result L rec side board flags m))) ms))"
proof (induction ms arbitrary: h bm bl T)
  case Nil
  then show ?case by simp
next
  case (Cons a ms)
  from Cons.prems(1) obtain va mla ta where
    a: "child_result L rec side board flags a = Inr (va, mla, ta)"
    by (auto simp: minimax_max_step simp del: minimax_max.simps split: sum.splits)
  show ?case
  proof (cases "h < va")
    case True
    with Cons.prems a have "minimax_max L rec side board flags ms
        (va, a, mla, setitem (key_of L a) ta T) = Inr (H, BM, BL, TT)"
      by (simp add: minimax_max_step del: minimax_max.simps)
    from Cons.IH[OF this] a show ?thesis by simp
  next
    case False
    with Cons.prems a have "minimax_max L rec side board flags ms
        (h, bm, bl, setitem (key_of L a) ta T) = Inr (H, BM, BL, TT)"
      by (simp add: minimax_max_step del: minimax_max.simps)
    from Cons.IH[OF this] a show ?thesis by simp
  qed
qed

lemma minimax_min_tree:
  "minimax_min L rec side board flags ms (h, bm, bl, T) = Inr (H, BM, BL, TT) \<Longrightarrow>
   TT = dict_update T
          (MoveTree (map (\<lambda>m. (key_of L m, res_tree (child_result L rec side board flags m))) ms))"
proof (induction ms arbitrary: h bm bl T)
  case Nil
  then show ?case by simp
next
  case (Cons a ms)
  from Cons.prems(1) obtain va mla ta where
    a: "child_result L rec side board flags a = Inr (va, mla, ta)"
    by (auto simp: minimax_min_step simp del: minimax_min.simps split: sum.splits)
  show ?case
  proof (cases "va < h")
    case True
    with Cons.prems a have "minimax_min L rec side board flags ms
        (va, a, mla, setitem (key_of L a) ta T) = Inr (H, BM, BL, TT)"
      by (simp add: minimax_min_step del: minimax_min.simps)
    from Cons.IH[OF this] a show ?thesis by simp
  next
    case False
    with Cons.prems a have "minimax_min L rec side board flags ms
        (h, bm, bl, setitem (key_of L a) ta T) = Inr (H, BM, BL, TT)"
      by (simp add: minimax_min_step del: minimax_min.simps)
    from Cons.IH[OF this] a show ?thesis by simp
  qed
qed

lemma visited_by_Cons:
  "child_result L (\<lambda>s b f. rec s b f alpha beta) side board flags a = Inr (v, ml, t) \<Longrightarrow>
   visited_by L rec side board flags ms kts \<Longrightarrow>
   visited_by L rec side board flags (a # ms) ((key_of L a, t) # kts)"
  unfolding visited_by_def by fastforce

lemma alphabeta_max_tree:
  "alphabeta_max L rec side board flags ms (h, bm, bl, T) alpha beta = Inr (H, BM, BL, TT) \<Longrightarrow>
   \<exists>kts. TT = dict_update T (MoveTree kts) \<and> visited_by L rec side board flags ms kts"
proof (induction ms arbitrary: h bm bl T alpha)
  case Nil
  then have "TT = dict_update T (MoveTree [])" by simp
  moreover have "visited_by L rec side board flags [] []" by (simp add: visited_by_def)
  ultimately show ?case by blast
next
  case (Cons a ms)
  from Cons.prems(1) obtain va mla ta where
    a: "child_result L (\<lambda>s b f. rec s b f alpha beta) side board flags a = Inr (va, mla, ta)"
    by (auto simp: alphabeta_max_step simp del: alphabeta_max.simps split: sum.splits)
  let ?T = "setitem (key_of L a) ta T"
  have one: "visited_by L rec side board flags (a # ms) [(key_of L a, ta)]"
    using visited_by_Cons[where rec = rec and alpha = alpha and beta = beta, OF a, of ms "[]"] by (simp add: visited_by_def)
  show ?case
  proof (cases "beta \<le> max alpha (max h va)")
    case True
    with Cons.prems a have "TT = ?T"
      by (auto simp: alphabeta_max_step simp del: alphabeta_max.simps split: if_splits)
    then have "TT = dict_update T (MoveTree [(key_of L a, ta)])" by simp
    with one show ?thesis by blast
  next
    case False
    with Cons.prems a obtain h2 bm2 bl2 where
      "alphabeta_max L rec side board flags ms (h2, bm2, bl2, ?T) (max alpha (max h va)) beta
         = Inr (H, BM, BL, TT)"
      by (auto simp: alphabeta_max_step simp del: alphabeta_max.simps split: if_splits)
    from Cons.IH[OF this] obtain kts where
      kts: "TT = dict_update ?T (MoveTree kts)" "visited_by L rec side board flags ms kts"
      by blast
    from kts(1) have "TT = dict_update T (MoveTree ((key_of L a, ta) # kts))" by simp
    with visited_by_Cons[where rec = rec and alpha = alpha and beta = beta, OF a kts(2)] show ?thesis by blast
  qed
qed

lemma alphabeta_min_tree:
  "alphabeta_min L rec side board flags ms (h, bm, bl, T) alpha beta = Inr (H, BM, BL, TT) \<Longrightarrow>
   \<exists>kts. TT = dict_update T (MoveTree kts) \<and> visited_by L rec side board flags ms kts"
proof (induction ms arbitrary: h bm bl T beta)
  case Nil
  then have "TT = dict_update T (MoveTree [])" by simp
  moreover have "visited_by L rec side board flags [] []" by (simp add: visited_by_def)
  ultimately show ?case by blast
next
  case (Cons a ms)
  from Cons.prems(1) obtain va mla ta where
    a: "child_result L (\<lambda>s b f. rec s b f alpha beta) side board flags a = Inr (va, mla, ta)"
    by (auto simp: alphabeta_min_step simp del: alphabeta_min.simps split: sum.splits)
  let ?T = "setitem (key_of L a) ta T"
  have one: "visited_by L rec side board flags (a # ms) [(key_of L a, ta)]"
    using visited_by_Cons[where rec = rec and alpha = alpha and beta = beta, OF a, of ms "[]"] by (simp add: visited_by_def)
  show ?case
  proof (cases "min beta (min h va) \<le> alpha")
    case True
    with Cons.prems a have "TT = ?T"
      by (auto simp: alphabeta_min_step simp del: alphabeta_min.simps split: if_splits)
    then have "TT = dict_update T (MoveTree [(key_of L a, ta)])" by simp
    with one show ?thesis by blast
  next
    case False
    with Cons.prems a obtain h2 bm2 bl2 where
      "alphabeta_min L rec side board flags ms (h2, bm2, bl2, ?T) alpha (min beta (min h va))
         = Inr (H, BM, BL, TT)"
      by (auto simp: alphabeta_min_step simp del: alphabeta_min.simps split: if_splits)
    from Cons.IH[OF this] obtain kts where
      kts: "TT = dict_update ?T (MoveTree kts)" "visited_by L rec side board flags ms kts"
      by blast
    from kts(1) have "TT = dict_update T (MoveTree ((key_of L a, ta) # kts))" by simp
    with visited_by_Cons[where rec = rec and alpha = alpha and beta = beta, OF a kts(2)] show ?thesis by blast
  qed
qed


lemma child_result_pair:
  "child_result L recm side board flags m = Inr r1 \<Longrightarrow>
   child_result L (\<lambda>s b f. reca s b f alpha beta) side board flags m = Inr r2 \<Longrightarrow>
   \<exists>ns nb nf. recm ns nb nf = Inr r1 \<and> reca ns nb nf alpha beta = Inr r2"
  by (auto simp: child_result_def split: prod.splits)

lemma visited_tree_le:
  assumes inj: "inj_on (key_of L) (set ms)"
    and ih: "\<forall>s b f alpha beta v ml t v' ml' t'.
        recm s b f = Inr (v, ml, t) \<longrightarrow> reca s b f alpha beta = Inr (v', ml', t') \<longrightarrow>
        nodeCount t' \<le> nodeCount t"
    and all: "\<forall>m\<in>set ms. \<exists>v ml t. child_result L recm side board flags m = Inr (v, ml, t)"
    and vis: "visited_by L reca side board flags ms kts"
  shows "nodeCount (dict_update (MoveTree []) (MoveTree kts)) \<le>
         nodeCount (dict_update (MoveTree [])
           (MoveTree (map (\<lambda>m. (key_of L m, res_tree (child_result L recm side board flags m))) ms)))"
    (is "nodeCount ?A \<le> nodeCount ?M")
proof -
  let ?kms = "map (\<lambda>m. (key_of L m, res_tree (child_result L recm side board flags m))) ms"
  have dA: "distinct (map fst (entries ?A))"
    by (rule dict_update_distinct) simp
  have dom: "\<forall>(k, x)\<in>set (entries ?A). \<exists>w. (k, w) \<in> set (entries ?M) \<and> nodeCount x \<le> nodeCount w"
  proof (clarify)
    fix k x assume "(k, x) \<in> set (entries ?A)"
    with dA have "map_of (entries ?A) k = Some x" by simp
    from dict_update_from[OF this] have "(k, x) \<in> set kts" by simp
    with vis obtain m alpha beta v1 ml1 where m: "m \<in> set ms" "k = key_of L m" and
      ca: "child_result L (\<lambda>s b f. reca s b f alpha beta) side board flags m = Inr (v1, ml1, x)"
      unfolding visited_by_def by fast
    from all m(1) obtain vm mlm tm where
      cm: "child_result L recm side board flags m = Inr (vm, mlm, tm)" by blast
    from child_result_pair[where reca = reca and alpha = alpha and beta = beta, OF cm ca] ih have le: "nodeCount x \<le> nodeCount tm" by blast
    have in_kms: "(k, tm) \<in> set ?kms" using m cm by force
    have uniq: "\<forall>t'. (k, t') \<in> set ?kms \<longrightarrow> t' = tm"
    proof (intro allI impI)
      fix t' assume "(k, t') \<in> set ?kms"
      then obtain m' where m': "m' \<in> set ms" "key_of L m' = k"
        "t' = res_tree (child_result L recm side board flags m')" by auto
      from inj m(1) m'(1) m'(2) m(2) have "m' = m" by (auto dest: inj_onD)
      with m'(3) cm show "t' = tm" by simp
    qed
    from dict_update_has[OF in_kms uniq, of "MoveTree []"]
    have "(k, tm) \<in> set (entries ?M)" by (rule map_of_SomeD)
    with le show "\<exists>w. (k, w) \<in> set (entries ?M) \<and> nodeCount x \<le> nodeCount w" by blast
  qed
  from sum_list_dominated[OF dA dom] show ?thesis
    by (simp only: nodeCount_entries[symmetric])
qed

lemma alphabeta_tree_le:
  assumes keys: "keys_distinguish_moves L"
  shows "minimax L n side board flags d = Inr (v, ml, t) \<Longrightarrow>
     alphabeta L n side board flags d alpha beta = Inr (v', ml', t') \<Longrightarrow>
     nodeCount t' \<le> nodeCount t"
proof (induction n arbitrary: side board flags d alpha beta v ml t v' ml' t')
  case 0
  then show ?case by simp
next
  case (Suc n)
  show ?case
  proof (cases "d = 0")
    case True
    with Suc.prems show ?thesis by auto
  next
    case False
    from Suc.prems(1) False obtain m0 ms where gm: "generateMoves L side board flags = m0 # ms"
      by (cases "generateMoves L side board flags") auto
    let ?M = "m0 # ms"
    let ?recm = "\<lambda>s b f. minimax L n s b f (d - 1)"
    let ?reca = "\<lambda>s b f. alphabeta L n s b f (d - 1)"
    have inj: "inj_on (key_of L) (set ?M)"
      using keys gm unfolding keys_distinguish_moves_def by metis
    have ih: "\<forall>s b f alpha beta v ml t v' ml' t'.
        ?recm s b f = Inr (v, ml, t) \<longrightarrow> ?reca s b f alpha beta = Inr (v', ml', t') \<longrightarrow>
        nodeCount t' \<le> nodeCount t"
      using Suc.IH by blast
    show ?thesis
    proof (cases side)
      case False
      from Suc.prems(1) \<open>d \<noteq> 0\<close> gm False obtain BM BL where
        mm: "minimax_max L ?recm side board flags ?M (MInf, m0, [], MoveTree []) = Inr (v, BM, BL, t)"
        by (auto split: sum.splits)
      from Suc.prems(2) \<open>d \<noteq> 0\<close> gm False obtain BM' BL' where
        ab: "alphabeta_max L ?reca side board flags ?M (MInf, m0, [], MoveTree []) alpha beta
               = Inr (v', BM', BL', t')"
        by (auto split: sum.splits)
      from alphabeta_max_tree[OF ab] obtain kts where
        kts: "t' = dict_update (MoveTree []) (MoveTree kts)" "visited_by L ?reca side board flags ?M kts"
        by blast
      have all: "\<forall>m\<in>set ?M. \<exists>v ml t. child_result L ?recm side board flags m = Inr (v, ml, t)"
        using minimax_max_children[OF mm] by blast
      from visited_tree_le[OF inj ih all kts(2)] show ?thesis
        unfolding kts(1) minimax_max_tree[OF mm] by blast
    next
      case True
      from Suc.prems(1) \<open>d \<noteq> 0\<close> gm True obtain BM BL where
        mm: "minimax_min L ?recm side board flags ?M (PInf, m0, [], MoveTree []) = Inr (v, BM, BL, t)"
        by (auto split: sum.splits)
      from Suc.prems(2) \<open>d \<noteq> 0\<close> gm True obtain BM' BL' where
        ab: "alphabeta_min L ?reca side board flags ?M (PInf, m0, [], MoveTree []) alpha beta
               = Inr (v', BM', BL', t')"
        by (auto split: sum.splits)
      from alphabeta_min_tree[OF ab] obtain kts where
        kts: "t' = dict_update (MoveTree []) (MoveTree kts)" "visited_by L ?reca side board flags ?M kts"
        by blast
      have all: "\<forall>m\<in>set ?M. \<exists>v ml t. child_result L ?recm side board flags m = Inr (v, ml, t)"
        using minimax_min_children[OF mm] by blast
      from visited_tree_le[OF inj ih all kts(2)] show ?thesis
        unfolding kts(1) minimax_min_tree[OF mm] by blast
    qed
  qed
qed

section \<open>alphabeta with its default bounds\<close>

lemma alphabeta_default_bounds:
  assumes "minimax L limit side board flags depth = Inr (v, ml, t)"
  shows "\<exists>t'. alphabeta L limit side board flags depth MInf PInf = Inr (v, ml, t')"
proof -
  from minimax_value_finite[OF assms] obtain r where v: "v = Fin r" ..
  have "MInf < PInf" by simp
  with alphabeta_sound[of L limit depth] assms obtain v' ml' t' where
    ab: "alphabeta L limit side board flags depth MInf PInf = Inr (v', ml', t')" and
    w: "window_ok MInf PInf (v, ml) (v', ml')"
    unfolding ab_sound_def by blast
  from w v have "v' = v" "ml' = ml" by (auto simp: window_ok_def)
  with ab show ?thesis by blast
qed

section \<open>The running best of the loops\<close>

lemma better_trans: "better side a b \<Longrightarrow> better side b c \<Longrightarrow> better side a c"
  by (auto simp: better_def split: if_splits)

lemma better_irrefl [simp]: "\<not> better side a a"
  by (simp add: better_def)

lemma better_not_better: "better side a b \<Longrightarrow> \<not> better side c b \<Longrightarrow> better side a c"
  by (auto simp: better_def split: if_splits)

lemma running_best_cases:
  "running_best side init trace = best \<Longrightarrow>
   (best = init \<and> list_all (\<lambda>x. \<not> better side (fst x) (fst init)) trace) \<or>
   (better side (fst best) (fst init) \<and> kept_first side trace best)"
proof (induction trace arbitrary: init)
  case Nil
  then show ?case by simp
next
  case (Cons e es)
  show ?case
  proof (cases "better side (fst e) (fst init)")
    case True
    with Cons.prems have "running_best side e es = best" by simp
    from Cons.IH[OF this] show ?thesis
    proof
      assume a: "best = e \<and> list_all (\<lambda>x. \<not> better side (fst x) (fst e)) es"
      with True show ?thesis by simp
    next
      assume a: "better side (fst best) (fst e) \<and> kept_first side es best"
      then have "better side (fst best) (fst init)" using True by (blast intro: better_trans)
      moreover from a have "e \<noteq> best" by auto
      ultimately show ?thesis using a by simp
    qed
  next
    case False
    with Cons.prems have "running_best side init es = best" by simp
    from Cons.IH[OF this] show ?thesis
    proof
      assume a: "best = init \<and> list_all (\<lambda>x. \<not> better side (fst x) (fst init)) es"
      with False show ?thesis by simp
    next
      assume a: "better side (fst best) (fst init) \<and> kept_first side es best"
      then have b: "better side (fst best) (fst e)" using False by (blast intro: better_not_better)
      then have "e \<noteq> best" by auto
      with a b show ?thesis by simp
    qed
  qed
qed


lemma minimax_max_trace:
  "minimax_max L rec side board flags ms (h, bm, bl, T) = Inr (H, BM, BL, TT) \<Longrightarrow>
   \<exists>trace. visits L rec side board flags ms trace \<and>
     (H, BM, BL) = running_best False (h, bm, bl) trace"
proof (induction ms arbitrary: h bm bl T)
  case Nil
  then have "(H, BM, BL) = running_best False (h, bm, bl) []" by simp
  moreover have "visits L rec side board flags [] []" by (simp add: visits_def)
  ultimately show ?case by blast
next
  case (Cons a ms)
  from Cons.prems(1) obtain va mla ta where
    a: "child_result L rec side board flags a = Inr (va, mla, ta)"
    by (auto simp: minimax_max_step simp del: minimax_max.simps split: sum.splits)
  let ?T = "setitem (key_of L a) ta T"
  let ?b = "if h < va then (va, a, mla) else (h, bm, bl)"
  obtain h2 bm2 bl2 where b: "?b = (h2, bm2, bl2)" by (cases ?b) auto
  have "minimax_max L rec side board flags ms (h2, bm2, bl2, ?T) = Inr (H, BM, BL, TT)"
    using Cons.prems a b by (auto simp: minimax_max_step simp del: minimax_max.simps split: if_splits)
  from Cons.IH[OF this] obtain trace where
    tr: "visits L rec side board flags ms trace" "(H, BM, BL) = running_best False (h2, bm2, bl2) trace"
    by blast
  have "visits L rec side board flags (a # ms) ((va, a, mla) # trace)"
    using tr(1) a by (simp add: visits_def)
  moreover have "(H, BM, BL) = running_best False (h, bm, bl) ((va, a, mla) # trace)"
    using tr(2) b by (simp add: better_def)
  ultimately show ?case by blast
qed

lemma minimax_min_trace:
  "minimax_min L rec side board flags ms (h, bm, bl, T) = Inr (H, BM, BL, TT) \<Longrightarrow>
   \<exists>trace. visits L rec side board flags ms trace \<and>
     (H, BM, BL) = running_best True (h, bm, bl) trace"
proof (induction ms arbitrary: h bm bl T)
  case Nil
  then have "(H, BM, BL) = running_best True (h, bm, bl) []" by simp
  moreover have "visits L rec side board flags [] []" by (simp add: visits_def)
  ultimately show ?case by blast
next
  case (Cons a ms)
  from Cons.prems(1) obtain va mla ta where
    a: "child_result L rec side board flags a = Inr (va, mla, ta)"
    by (auto simp: minimax_min_step simp del: minimax_min.simps split: sum.splits)
  let ?T = "setitem (key_of L a) ta T"
  let ?b = "if va < h then (va, a, mla) else (h, bm, bl)"
  obtain h2 bm2 bl2 where b: "?b = (h2, bm2, bl2)" by (cases ?b) auto
  have "minimax_min L rec side board flags ms (h2, bm2, bl2, ?T) = Inr (H, BM, BL, TT)"
    using Cons.prems a b by (auto simp: minimax_min_step simp del: minimax_min.simps split: if_splits)
  from Cons.IH[OF this] obtain trace where
    tr: "visits L rec side board flags ms trace" "(H, BM, BL) = running_best True (h2, bm2, bl2) trace"
    by blast
  have "visits L rec side board flags (a # ms) ((va, a, mla) # trace)"
    using tr(1) a by (simp add: visits_def)
  moreover have "(H, BM, BL) = running_best True (h, bm, bl) ((va, a, mla) # trace)"
    using tr(2) b by (simp add: better_def)
  ultimately show ?case by blast
qed

lemma list_all2_mem:
  "list_all2 P xs ys \<Longrightarrow> y \<in> set ys \<Longrightarrow> \<exists>x\<in>set xs. P x y"
  by (induction rule: list_all2_induct) auto

lemma kept_first_mem: "kept_first side trace best \<Longrightarrow> best \<in> set trace"
  by (induction trace) (auto split: if_splits)

lemma running_best_kept:
  assumes "running_best side (init, x0) trace = best" and "trace \<noteq> []"
    and "\<forall>e\<in>set trace. better side (fst e) init"
  shows "kept_first side trace best"
proof -
  from running_best_cases[OF assms(1)] show ?thesis
  proof
    assume "best = (init, x0) \<and> list_all (\<lambda>x. \<not> better side (fst x) (fst (init, x0))) trace"
    with assms(2,3) show ?thesis by (cases trace) auto
  next
    assume "better side (fst best) (fst (init, x0)) \<and> kept_first side trace best"
    then show ?thesis by simp
  qed
qed

lemma better_Fin [simp]: "better side (Fin r) (if side then PInf else MInf)"
  by (simp add: better_def)


lemma visits_mem:
  "visits L rec side board flags ms trace \<Longrightarrow> e \<in> set trace \<Longrightarrow>
   \<exists>s b f t. rec s b f = Inr (fst e, snd (snd e), t)"
proof -
  assume "visits L rec side board flags ms trace" "e \<in> set trace"
  from list_all2_mem[OF this[unfolded visits_def]] obtain m t where
    "child_result L rec side board flags m = Inr (fst e, snd (snd e), t)"
    by (cases e) auto
  from child_result_Inr[OF this] show ?thesis by blast
qed

lemma minimax_keeps_first:
  assumes "depth \<noteq> 0" and "minimax L (Suc limit) side board flags depth = Inr (v, ml, t)"
  shows "\<exists>trace bm bl.
     visits L (\<lambda>s b f. minimax L limit s b f (depth - 1)) side board flags
       (generateMoves L side board flags) trace \<and>
     (v, bm, bl) = running_best side
        (if side then PInf else MInf, hd (generateMoves L side board flags), []) trace \<and>
     ml = bm # bl \<and> kept_first side trace (v, bm, bl)"
proof -
  from assms obtain m0 ms where gm: "generateMoves L side board flags = m0 # ms"
    by (cases "generateMoves L side board flags") auto
  let ?rec = "\<lambda>s b f. minimax L limit s b f (depth - 1)"
  have "\<exists>trace bm bl. visits L ?rec side board flags (m0 # ms) trace \<and>
     (v, bm, bl) = running_best side (if side then PInf else MInf, m0, []) trace \<and>
     ml = bm # bl"
  proof (cases side)
    case False
    from assms gm False obtain BM BL where
      loop: "minimax_max L ?rec side board flags (m0 # ms) (MInf, m0, [], MoveTree []) = Inr (v, BM, BL, t)"
      and ml: "ml = BM # BL"
      by (auto split: sum.splits)
    from minimax_max_trace[OF loop] obtain trace where
      tr: "visits L ?rec side board flags (m0 # ms) trace"
        "(v, BM, BL) = running_best False (MInf, m0, []) trace"
      by blast
    show ?thesis
      by (rule exI[of _ trace], rule exI[of _ BM], rule exI[of _ BL]) (use tr ml False in simp)
  next
    case True
    from assms gm True obtain BM BL where
      loop: "minimax_min L ?rec side board flags (m0 # ms) (PInf, m0, [], MoveTree []) = Inr (v, BM, BL, t)"
      and ml: "ml = BM # BL"
      by (auto split: sum.splits)
    from minimax_min_trace[OF loop] obtain trace where
      tr: "visits L ?rec side board flags (m0 # ms) trace"
        "(v, BM, BL) = running_best True (PInf, m0, []) trace"
      by blast
    show ?thesis
      by (rule exI[of _ trace], rule exI[of _ BM], rule exI[of _ BL]) (use tr ml True in simp)
  qed
  then obtain trace bm bl where
    tr: "visits L ?rec side board flags (m0 # ms) trace"
      "(v, bm, bl) = running_best side (if side then PInf else MInf, m0, []) trace"
      "ml = bm # bl"
    by blast
  from tr(1) have ne: "trace \<noteq> []" by (auto simp: visits_def)
  have "\<forall>e\<in>set trace. better side (fst e) (if side then PInf else MInf)"
  proof
    fix e assume "e \<in> set trace"
    from visits_mem[OF tr(1) this] obtain s b f t where
      c: "minimax L limit s b f (depth - 1) = Inr (fst e, snd (snd e), t)" by blast
    from minimax_value_finite[OF c] obtain r where "fst e = Fin r" ..
    then show "better side (fst e) (if side then PInf else MInf)" by simp
  qed
  from running_best_kept[OF tr(2)[symmetric] ne this] tr show ?thesis
    unfolding gm list.sel by blast
qed


lemma pruned_visits_max_step:
  "pruned_visits L rec False board flags (m # ms) h alpha beta =
     (case child_result L (\<lambda>s b f. rec s b f alpha beta) False board flags m of
        Inl e \<Rightarrow> Inl e
      | Inr (v, ml, t) \<Rightarrow>
          if beta \<le> max alpha (max h v) then Inr [(v, m, ml)]
          else (case pruned_visits L rec False board flags ms (max h v) (max alpha (max h v)) beta of
                  Inl e \<Rightarrow> Inl e
                | Inr trace \<Rightarrow> Inr ((v, m, ml) # trace)))"
proof -
  have "(if h < v then v else h) = max h v" for v
    by (auto simp: max_def)
  then show ?thesis
    by (simp add: better_def Let_def split: sum.splits prod.splits)
qed

lemma pruned_visits_min_step:
  "pruned_visits L rec True board flags (m # ms) h alpha beta =
     (case child_result L (\<lambda>s b f. rec s b f alpha beta) True board flags m of
        Inl e \<Rightarrow> Inl e
      | Inr (v, ml, t) \<Rightarrow>
          if min beta (min h v) \<le> alpha then Inr [(v, m, ml)]
          else (case pruned_visits L rec True board flags ms (min h v) alpha (min beta (min h v)) of
                  Inl e \<Rightarrow> Inl e
                | Inr trace \<Rightarrow> Inr ((v, m, ml) # trace)))"
proof -
  have "(if v < h then v else h) = min h v" for v
    by (auto simp: min_def)
  then show ?thesis
    by (simp add: better_def Let_def split: sum.splits prod.splits)
qed

lemma alphabeta_max_trace:
  "alphabeta_max L rec False board flags ms (h, bm, bl, T) alpha beta = Inr (H, BM, BL, TT) \<Longrightarrow>
   \<exists>trace. pruned_visits L rec False board flags ms h alpha beta = Inr trace \<and>
     (ms \<noteq> [] \<longrightarrow> trace \<noteq> []) \<and>
     (H, BM, BL) = running_best False (h, bm, bl) trace"
proof (induction ms arbitrary: h bm bl T alpha)
  case Nil
  then have "(H, BM, BL) = running_best False (h, bm, bl) []" by simp
  then show ?case by (intro exI[of _ "[]"]) simp
next
  case (Cons a ms)
  from Cons.prems(1) obtain va mla ta where
    a: "child_result L (\<lambda>s b f. rec s b f alpha beta) False board flags a = Inr (va, mla, ta)"
    by (auto simp: alphabeta_max_step simp del: alphabeta_max.simps split: sum.splits)
  let ?T = "setitem (key_of L a) ta T"
  let ?b = "if h < va then (va, a, mla) else (h, bm, bl)"
  obtain h2 bm2 bl2 where b: "?b = (h2, bm2, bl2)" by (cases ?b) auto
  have h2: "h2 = max h va" using b by (auto simp: max_def split: if_splits)
  have step: "running_best False (h, bm, bl) ((va, a, mla) # trace) =
      running_best False (h2, bm2, bl2) trace" for trace
    using b by (simp add: better_def)
  show ?case
  proof (cases "beta \<le> max alpha (max h va)")
    case True
    with Cons.prems a b have "(H, BM, BL) = (h2, bm2, bl2)"
      by (auto simp: alphabeta_max_step simp del: alphabeta_max.simps split: if_splits)
    then have "(H, BM, BL) = running_best False (h, bm, bl) [(va, a, mla)]"
      using step[of "[]"] by simp
    moreover have "pruned_visits L rec False board flags (a # ms) h alpha beta = Inr [(va, a, mla)]"
      using a True by (simp add: pruned_visits_max_step del: pruned_visits.simps)
    ultimately show ?thesis by blast
  next
    case False
    with Cons.prems a b have
      "alphabeta_max L rec False board flags ms (h2, bm2, bl2, ?T) (max alpha (max h va)) beta
         = Inr (H, BM, BL, TT)"
      by (auto simp: alphabeta_max_step simp del: alphabeta_max.simps split: if_splits)
    from Cons.IH[OF this] obtain trace where
      tr: "pruned_visits L rec False board flags ms h2 (max alpha (max h va)) beta = Inr trace"
        "(H, BM, BL) = running_best False (h2, bm2, bl2) trace"
      by blast
    from tr(2) have "(H, BM, BL) = running_best False (h, bm, bl) ((va, a, mla) # trace)"
      by (simp only: step)
    moreover have "pruned_visits L rec False board flags (a # ms) h alpha beta =
        Inr ((va, a, mla) # trace)"
      using a False tr(1) h2 by (simp add: pruned_visits_max_step del: pruned_visits.simps)
    ultimately show ?thesis by blast
  qed
qed

lemma alphabeta_min_trace:
  "alphabeta_min L rec True board flags ms (h, bm, bl, T) alpha beta = Inr (H, BM, BL, TT) \<Longrightarrow>
   \<exists>trace. pruned_visits L rec True board flags ms h alpha beta = Inr trace \<and>
     (ms \<noteq> [] \<longrightarrow> trace \<noteq> []) \<and>
     (H, BM, BL) = running_best True (h, bm, bl) trace"
proof (induction ms arbitrary: h bm bl T beta)
  case Nil
  then have "(H, BM, BL) = running_best True (h, bm, bl) []" by simp
  then show ?case by (intro exI[of _ "[]"]) simp
next
  case (Cons a ms)
  from Cons.prems(1) obtain va mla ta where
    a: "child_result L (\<lambda>s b f. rec s b f alpha beta) True board flags a = Inr (va, mla, ta)"
    by (auto simp: alphabeta_min_step simp del: alphabeta_min.simps split: sum.splits)
  let ?T = "setitem (key_of L a) ta T"
  let ?b = "if va < h then (va, a, mla) else (h, bm, bl)"
  obtain h2 bm2 bl2 where b: "?b = (h2, bm2, bl2)" by (cases ?b) auto
  have h2: "h2 = min h va" using b by (auto simp: min_def split: if_splits)
  have step: "running_best True (h, bm, bl) ((va, a, mla) # trace) =
      running_best True (h2, bm2, bl2) trace" for trace
    using b by (simp add: better_def)
  show ?case
  proof (cases "min beta (min h va) \<le> alpha")
    case True
    with Cons.prems a b have "(H, BM, BL) = (h2, bm2, bl2)"
      by (auto simp: alphabeta_min_step simp del: alphabeta_min.simps split: if_splits)
    then have "(H, BM, BL) = running_best True (h, bm, bl) [(va, a, mla)]"
      using step[of "[]"] by simp
    moreover have "pruned_visits L rec True board flags (a # ms) h alpha beta = Inr [(va, a, mla)]"
      using a True by (simp add: pruned_visits_min_step del: pruned_visits.simps)
    ultimately show ?thesis by blast
  next
    case False
    with Cons.prems a b have
      "alphabeta_min L rec True board flags ms (h2, bm2, bl2, ?T) alpha (min beta (min h va))
         = Inr (H, BM, BL, TT)"
      by (auto simp: alphabeta_min_step simp del: alphabeta_min.simps split: if_splits)
    from Cons.IH[OF this] obtain trace where
      tr: "pruned_visits L rec True board flags ms h2 alpha (min beta (min h va)) = Inr trace"
        "(H, BM, BL) = running_best True (h2, bm2, bl2) trace"
      by blast
    from tr(2) have "(H, BM, BL) = running_best True (h, bm, bl) ((va, a, mla) # trace)"
      by (simp only: step)
    moreover have "pruned_visits L rec True board flags (a # ms) h alpha beta =
        Inr ((va, a, mla) # trace)"
      using a False tr(1) h2 by (simp add: pruned_visits_min_step del: pruned_visits.simps)
    ultimately show ?thesis by blast
  qed
qed

lemma pruned_visits_mem:
  "pruned_visits L rec side board flags ms h alpha beta = Inr trace \<Longrightarrow> e \<in> set trace \<Longrightarrow>
   \<exists>s b f alpha' beta' t. rec s b f alpha' beta' = Inr (fst e, snd (snd e), t)"
proof (induction ms arbitrary: h alpha beta trace)
  case Nil
  then show ?case by simp
next
  case (Cons a ms)
  from Cons.prems(1) obtain va mla ta where
    a: "child_result L (\<lambda>s b f. rec s b f alpha beta) side board flags a = Inr (va, mla, ta)"
    by (auto split: sum.splits)
  from child_result_Inr[OF a] have hd: "\<exists>s b f alpha' beta' t.
      rec s b f alpha' beta' = Inr (va, mla, t)" by blast
  let ?h = "if better side va h then va else h"
  let ?alpha = "if side then alpha else max alpha ?h"
  let ?beta = "if side then min beta ?h else beta"
  have unf: "pruned_visits L rec side board flags (a # ms) h alpha beta =
      (if ?beta \<le> ?alpha then Inr [(va, a, mla)]
       else (case pruned_visits L rec side board flags ms ?h ?alpha ?beta of
               Inl e \<Rightarrow> Inl e
             | Inr trace \<Rightarrow> Inr ((va, a, mla) # trace)))"
    using a by (simp add: Let_def)
  show ?case
  proof (cases "?beta \<le> ?alpha")
    case True
    from Cons.prems(1) have "trace = [(va, a, mla)]"
      unfolding unf using True by (simp only: if_True sum.inject)
    with Cons.prems(2) hd show ?thesis by simp
  next
    case False
    from Cons.prems(1) have
      "(case pruned_visits L rec side board flags ms ?h ?alpha ?beta of
               Inl e \<Rightarrow> Inl e
             | Inr trace \<Rightarrow> Inr ((va, a, mla) # trace)) = Inr trace"
      unfolding unf using False by (simp only: if_False)
    then obtain tr where
      tr: "pruned_visits L rec side board flags ms ?h ?alpha ?beta = Inr tr"
      and t: "trace = (va, a, mla) # tr"
      by (cases "pruned_visits L rec side board flags ms ?h ?alpha ?beta") auto
    from Cons.prems(2) t have "e = (va, a, mla) \<or> e \<in> set tr" by auto
    then show ?thesis
    proof
      assume "e = (va, a, mla)"
      with hd show ?thesis by simp
    next
      assume "e \<in> set tr"
      from Cons.IH[OF tr this] show ?thesis .
    qed
  qed
qed

lemma alphabeta_value_finite:
  "alphabeta L n side board flags d alpha beta = Inr (v, ml, t) \<Longrightarrow> \<exists>r. v = Fin r"
proof (induction n arbitrary: side board flags d alpha beta v ml t)
  case 0
  then show ?case by simp
next
  case (Suc n)
  show ?case
  proof (cases "d = 0")
    case True
    with Suc.prems show ?thesis by auto
  next
    case False
    from Suc.prems False obtain m0 ms where gm: "generateMoves L side board flags = m0 # ms"
      by (cases "generateMoves L side board flags") auto
    let ?rec = "\<lambda>s b f. alphabeta L n s b f (d - 1)"
    have fin: "better sd (fst e) (if sd then PInf else MInf)"
      if "pruned_visits L ?rec sd' board flags (m0 # ms) h alpha beta = Inr trace" "e \<in> set trace"
      for trace e sd sd' h
    proof -
      from pruned_visits_mem[OF that] Suc.IH obtain r where "fst e = Fin r" by blast
      then show ?thesis by simp
    qed
    show ?thesis
    proof (cases side)
      case False
      from Suc.prems \<open>d \<noteq> 0\<close> gm False obtain BM BL where
        "alphabeta_max L ?rec False board flags (m0 # ms) (MInf, m0, [], MoveTree []) alpha beta
           = Inr (v, BM, BL, t)"
        by (auto split: sum.splits)
      from alphabeta_max_trace[OF this] obtain trace where
        tr: "pruned_visits L ?rec False board flags (m0 # ms) MInf alpha beta = Inr trace"
          "trace \<noteq> []" "(v, BM, BL) = running_best False (MInf, m0, []) trace"
        by blast
      have "kept_first False trace (v, BM, BL)"
        using running_best_kept[OF tr(3)[symmetric] tr(2)] fin[OF tr(1), of _ False] by simp
      from pruned_visits_mem[OF tr(1) kept_first_mem[OF this]] Suc.IH show ?thesis
        by fastforce
    next
      case True
      from Suc.prems \<open>d \<noteq> 0\<close> gm True obtain BM BL where
        "alphabeta_min L ?rec True board flags (m0 # ms) (PInf, m0, [], MoveTree []) alpha beta
           = Inr (v, BM, BL, t)"
        by (auto split: sum.splits)
      from alphabeta_min_trace[OF this] obtain trace where
        tr: "pruned_visits L ?rec True board flags (m0 # ms) PInf alpha beta = Inr trace"
          "trace \<noteq> []" "(v, BM, BL) = running_best True (PInf, m0, []) trace"
        by blast
      have "kept_first True trace (v, BM, BL)"
        using running_best_kept[OF tr(3)[symmetric] tr(2)] fin[OF tr(1), of _ True] by simp
      from pruned_visits_mem[OF tr(1) kept_first_mem[OF this]] Suc.IH show ?thesis
        by fastforce
    qed
  qed
qed

lemma alphabeta_keeps_first:
  assumes "depth \<noteq> 0"
    and "alphabeta L (Suc limit) side board flags depth alpha beta = Inr (v, ml, t)"
  shows "\<exists>trace bm bl.
     pruned_visits L (\<lambda>s b f. alphabeta L limit s b f (depth - 1)) side board flags
       (generateMoves L side board flags) (if side then PInf else MInf) alpha beta = Inr trace \<and>
     (v, bm, bl) = running_best side
        (if side then PInf else MInf, hd (generateMoves L side board flags), []) trace \<and>
     ml = bm # bl \<and> kept_first side trace (v, bm, bl)"
proof -
  from assms obtain m0 ms where gm: "generateMoves L side board flags = m0 # ms"
    by (cases "generateMoves L side board flags") auto
  let ?rec = "\<lambda>s b f. alphabeta L limit s b f (depth - 1)"
  let ?w = "if side then PInf else MInf"
  have "\<exists>trace bm bl. pruned_visits L ?rec side board flags (m0 # ms) ?w alpha beta = Inr trace \<and>
     trace \<noteq> [] \<and> (v, bm, bl) = running_best side (?w, m0, []) trace \<and> ml = bm # bl"
  proof (cases side)
    case False
    from assms gm False obtain BM BL where
      loop: "alphabeta_max L ?rec False board flags (m0 # ms) (MInf, m0, [], MoveTree []) alpha beta
               = Inr (v, BM, BL, t)"
      and ml: "ml = BM # BL"
      by (auto split: sum.splits)
    from alphabeta_max_trace[OF loop] obtain trace where
      tr: "pruned_visits L ?rec False board flags (m0 # ms) MInf alpha beta = Inr trace"
        "(v, BM, BL) = running_best False (MInf, m0, []) trace" and ne: "trace \<noteq> []"
      by blast
    show ?thesis
      by (rule exI[of _ trace], rule exI[of _ BM], rule exI[of _ BL]) (use tr ne ml False in simp)
  next
    case True
    from assms gm True obtain BM BL where
      loop: "alphabeta_min L ?rec True board flags (m0 # ms) (PInf, m0, [], MoveTree []) alpha beta
               = Inr (v, BM, BL, t)"
      and ml: "ml = BM # BL"
      by (auto split: sum.splits)
    from alphabeta_min_trace[OF loop] obtain trace where
      tr: "pruned_visits L ?rec True board flags (m0 # ms) PInf alpha beta = Inr trace"
        "(v, BM, BL) = running_best True (PInf, m0, []) trace" and ne: "trace \<noteq> []"
      by blast
    show ?thesis
      by (rule exI[of _ trace], rule exI[of _ BM], rule exI[of _ BL]) (use tr ne ml True in simp)
  qed
  then obtain trace bm bl where
    tr: "pruned_visits L ?rec side board flags (m0 # ms) ?w alpha beta = Inr trace"
      "(v, bm, bl) = running_best side (?w, m0, []) trace"
      "ml = bm # bl" and ne: "trace \<noteq> []"
    by blast
  have "\<forall>e\<in>set trace. better side (fst e) ?w"
  proof
    fix e assume "e \<in> set trace"
    from pruned_visits_mem[OF tr(1) this] obtain s b f alpha' beta' t where
      c: "alphabeta L limit s b f (depth - 1) alpha' beta' = Inr (fst e, snd (snd e), t)" by blast
    from alphabeta_value_finite[OF c] obtain r where "fst e = Fin r" ..
    then show "better side (fst e) ?w" by simp
  qed
  from running_best_kept[OF tr(2)[symmetric] ne this] tr show ?thesis
    unfolding gm list.sel by blast
qed


lemma playouts_length:
  "playouts L limit ns nb nf depth chooser i st = Inr (vals, st') \<Longrightarrow> length vals = i"
proof (induction i arbitrary: st vals)
  case 0
  then show ?case by simp
next
  case (Suc i)
  from Suc.prems obtain x t st1 where
    h: "stochasticHelper L limit ns nb nf (depth - 1) chooser st = Inr ((x, t), st1)"
    by (auto split: sum.splits)
  with Suc.prems obtain xs where
    r: "playouts L limit ns nb nf depth chooser i st1 = Inr (xs, st')" and v: "vals = x # xs"
    by (auto split: sum.splits)
  from Suc.IH[OF r] v show ?case by simp
qed

lemma sample_loop_playouts:
  "sample_loop L A limit ns nb nf depth chooser k i (s0, T0, st0) = Inr (s, T, st) \<Longrightarrow>
   \<exists>vals. playouts L limit ns nb nf depth chooser i st0 = Inr (vals, st) \<and>
     sum_values A s0 vals = Inr s"
proof (induction i arbitrary: s0 T0 st0)
  case 0
  then show ?case by simp
next
  case (Suc i)
  from Suc.prems obtain x t st1 where
    h: "stochasticHelper L limit ns nb nf (depth - 1) chooser st0 = Inr ((x, t), st1)"
    by (auto split: sum.splits)
  with Suc.prems obtain s1 where
    ad: "py_add A s0 x = Inr s1"
    by (auto split: sum.splits)
  with h Suc.prems obtain T1 where
    "sample_loop L A limit ns nb nf depth chooser k i (s1, T1, st1) = Inr (s, T, st)"
    by (auto simp: Let_def)
  from Suc.IH[OF this] obtain vals where
    v: "playouts L limit ns nb nf depth chooser i st1 = Inr (vals, st)"
      "sum_values A s1 vals = Inr s"
    by blast
  have "playouts L limit ns nb nf depth chooser (Suc i) st0 = Inr (x # vals, st)"
    using h v(1) by simp
  moreover have "sum_values A s0 (x # vals) = Inr s"
    using ad v(2) by simp
  ultimately show ?case by blast
qed

lemma child_sample_playouts:
  assumes "child_result L (\<lambda>s b f. sample_loop L A limit s b f depth chooser k i (s0, T0, st0))
             side board flags m = Inr (tot, T, st)"
  shows "\<exists>vals. child_result L (\<lambda>s b f. playouts L limit s b f depth chooser i st0)
             side board flags m = Inr (vals, st) \<and>
           sum_values A s0 vals = Inr tot"
proof -
  obtain fro to promote where m: "m = (fro, to, promote)" by (cases m) auto
  obtain ns nb nf where mk: "makeMove L side board fro to flags promote = (ns, nb, nf)"
    by (cases "makeMove L side board fro to flags promote") auto
  from assms m mk have
    "sample_loop L A limit ns nb nf depth chooser k i (s0, T0, st0) = Inr (tot, T, st)"
    by (simp add: child_result_def)
  from sample_loop_playouts[OF this] show ?thesis
    by (simp add: child_result_def m mk)
qed

lemma child_playouts_length:
  assumes "child_result L (\<lambda>s b f. playouts L limit s b f depth chooser i st0)
             side board flags m = Inr (vals, st)"
  shows "length vals = i"
proof -
  from child_result_Inr[OF assms] obtain s b f where
    "playouts L limit s b f depth chooser i st0 = Inr (vals, st)" by blast
  then show ?thesis by (rule playouts_length)
qed

lemma stochastic_max_trace:
  "stochastic_max L A limit side board flags depth breadth chooser ms (h, bm, T, st) =
     Inr (H, BM, TT, st') \<Longrightarrow>
   \<exists>trace. move_averages L A limit side board flags depth breadth chooser ms st = Inr (trace, st') \<and>
     (H, BM) = running_best False (h, bm) trace"
proof (induction ms arbitrary: h bm T st)
  case Nil
  then show ?case by simp
next
  case (Cons a ms)
  from Cons.prems(1) obtain tot T1 st1 where
    a: "child_result L (\<lambda>s b f. sample_loop L A limit s b f depth chooser (key_of L a)
          (nat breadth) (Fin 0, T, st)) side board flags a = Inr (tot, T1, st1)"
    by (auto simp: stochastic_max_step simp del: stochastic_max.simps split: sum.splits)
  with Cons.prems(1) obtain av where
    av: "truediv A tot breadth = Inr av"
    by (auto simp: stochastic_max_step simp del: stochastic_max.simps split: sum.splits)
  let ?b = "if h < av then (av, a) else (h, bm)"
  obtain h2 bm2 where b: "?b = (h2, bm2)" by (cases ?b) auto
  have "stochastic_max L A limit side board flags depth breadth chooser ms (h2, bm2, T1, st1) =
      Inr (H, BM, TT, st')"
    using Cons.prems a av b
    by (auto simp: stochastic_max_step simp del: stochastic_max.simps split: if_splits)
  from Cons.IH[OF this] obtain trace where
    tr: "move_averages L A limit side board flags depth breadth chooser ms st1 = Inr (trace, st')"
      "(H, BM) = running_best False (h2, bm2) trace"
    by blast
  from child_sample_playouts[OF a] obtain vals where
    v: "child_result L (\<lambda>s b f. playouts L limit s b f depth chooser (nat breadth) st)
          side board flags a = Inr (vals, st1)"
      "sum_values A (Fin 0) vals = Inr tot"
    by blast
  have "average A vals breadth = Inr av"
    using v(2) av by (simp add: average_def)
  with v(1) tr(1) have
    "move_averages L A limit side board flags depth breadth chooser (a # ms) st =
       Inr ((av, a) # trace, st')"
    by simp
  moreover have "(H, BM) = running_best False (h, bm) ((av, a) # trace)"
    using tr(2) b by (simp add: better_def)
  ultimately show ?case by blast
qed

lemma stochastic_min_trace:
  "stochastic_min L A limit side board flags depth breadth chooser ms (h, bm, T, st) =
     Inr (H, BM, TT, st') \<Longrightarrow>
   \<exists>trace. move_averages L A limit side board flags depth breadth chooser ms st = Inr (trace, st') \<and>
     (H, BM) = running_best True (h, bm) trace"
proof (induction ms arbitrary: h bm T st)
  case Nil
  then show ?case by simp
next
  case (Cons a ms)
  from Cons.prems(1) obtain tot T1 st1 where
    a: "child_result L (\<lambda>s b f. sample_loop L A limit s b f depth chooser (key_of L a)
          (nat breadth) (Fin 0, T, st)) side board flags a = Inr (tot, T1, st1)"
    by (auto simp: stochastic_min_step simp del: stochastic_min.simps split: sum.splits)
  with Cons.prems(1) obtain av where
    av: "truediv A tot breadth = Inr av"
    by (auto simp: stochastic_min_step simp del: stochastic_min.simps split: sum.splits)
  let ?b = "if av < h then (av, a) else (h, bm)"
  obtain h2 bm2 where b: "?b = (h2, bm2)" by (cases ?b) auto
  have "stochastic_min L A limit side board flags depth breadth chooser ms (h2, bm2, T1, st1) =
      Inr (H, BM, TT, st')"
    using Cons.prems a av b
    by (auto simp: stochastic_min_step simp del: stochastic_min.simps split: if_splits)
  from Cons.IH[OF this] obtain trace where
    tr: "move_averages L A limit side board flags depth breadth chooser ms st1 = Inr (trace, st')"
      "(H, BM) = running_best True (h2, bm2) trace"
    by blast
  from child_sample_playouts[OF a] obtain vals where
    v: "child_result L (\<lambda>s b f. playouts L limit s b f depth chooser (nat breadth) st)
          side board flags a = Inr (vals, st1)"
      "sum_values A (Fin 0) vals = Inr tot"
    by blast
  have "average A vals breadth = Inr av"
    using v(2) av by (simp add: average_def)
  with v(1) tr(1) have
    "move_averages L A limit side board flags depth breadth chooser (a # ms) st =
       Inr ((av, a) # trace, st')"
    by simp
  moreover have "(H, BM) = running_best True (h, bm) ((av, a) # trace)"
    using tr(2) b by (simp add: better_def)
  ultimately show ?case by blast
qed

lemma not_better_worst:
  "\<not> better side v (if side then PInf else MInf) \<Longrightarrow> v = (if side then PInf else MInf)"
  by (cases v) (auto simp: better_def split: if_splits)

lemma running_best_kept_hd:
  assumes "running_best side (if side then PInf else MInf, x0) trace = best"
    and "trace \<noteq> []" and "snd (hd trace) = x0"
  shows "kept_first side trace best"
proof -
  let ?w = "if side then PInf else MInf"
  from running_best_cases[OF assms(1)] show ?thesis
  proof
    assume a: "best = (?w, x0) \<and> list_all (\<lambda>x. \<not> better side (fst x) (fst (?w, x0))) trace"
    from assms(2) obtain e es where t: "trace = e # es" by (cases trace) auto
    from a t have "\<not> better side (fst e) ?w" by simp
    from not_better_worst[OF this] assms(3) t have "e = (?w, x0)"
      by (cases e) simp
    with a t show ?thesis by simp
  next
    assume "better side (fst best) (fst (?w, x0)) \<and> kept_first side trace best"
    then show ?thesis by simp
  qed
qed

lemma move_averages_hd:
  "move_averages L A limit side board flags depth breadth chooser (m # ms) st = Inr (trace, st') \<Longrightarrow>
   trace \<noteq> [] \<and> snd (hd trace) = m"
  by (auto split: sum.splits)

lemma stochastic_keeps_first:
  assumes "stochastic L A (Suc limit) side board flags depth breadth chooser st =
             Inr ((v, ml, t), st')"
  shows "\<exists>trace bm.
     move_averages L A limit side board flags depth breadth chooser
       (generateMoves L side board flags) st = Inr (trace, st') \<and>
     (v, bm) = running_best side
        (if side then PInf else MInf, hd (generateMoves L side board flags)) trace \<and>
     ml = [bm] \<and> kept_first side trace (v, bm)"
proof -
  from assms obtain m0 ms where gm: "generateMoves L side board flags = m0 # ms"
    by (cases "generateMoves L side board flags") auto
  let ?w = "if side then PInf else MInf"
  have "\<exists>trace bm.
     move_averages L A limit side board flags depth breadth chooser (m0 # ms) st = Inr (trace, st') \<and>
     (v, bm) = running_best side (?w, m0) trace \<and> ml = [bm]"
  proof (cases side)
    case False
    from assms gm False obtain BM where
      loop: "stochastic_max L A limit side board flags depth breadth chooser (m0 # ms)
                (MInf, m0, MoveTree [], st) = Inr (v, BM, t, st')"
      and ml: "ml = [BM]"
      by (auto split: sum.splits)
    from stochastic_max_trace[OF loop] obtain trace where
      tr: "move_averages L A limit side board flags depth breadth chooser (m0 # ms) st =
             Inr (trace, st')"
        "(v, BM) = running_best False (MInf, m0) trace"
      by blast
    show ?thesis
      by (rule exI[of _ trace], rule exI[of _ BM]) (use tr ml False in simp)
  next
    case True
    from assms gm True obtain BM where
      loop: "stochastic_min L A limit side board flags depth breadth chooser (m0 # ms)
                (PInf, m0, MoveTree [], st) = Inr (v, BM, t, st')"
      and ml: "ml = [BM]"
      by (auto split: sum.splits)
    from stochastic_min_trace[OF loop] obtain trace where
      tr: "move_averages L A limit side board flags depth breadth chooser (m0 # ms) st =
             Inr (trace, st')"
        "(v, BM) = running_best True (PInf, m0) trace"
      by blast
    show ?thesis
      by (rule exI[of _ trace], rule exI[of _ BM]) (use tr ml True in simp)
  qed
  then obtain trace bm where
    tr: "move_averages L A limit side board flags depth breadth chooser (m0 # ms) st =
           Inr (trace, st')"
      "(v, bm) = running_best side (?w, m0) trace"
      "ml = [bm]"
    by blast
  from move_averages_hd[OF tr(1)] have ne: "trace \<noteq> []" and hd: "snd (hd trace) = m0"
    by simp_all
  from running_best_kept_hd[OF tr(2)[symmetric] ne hd] tr show ?thesis
    unfolding gm list.sel by blast
qed

lemma kept_first_split:
  "kept_first side trace best \<Longrightarrow>
   \<exists>tr0 tr1. trace = tr0 @ best # tr1 \<and>
     list_all (\<lambda>e. better side (fst best) (fst e)) tr0 \<and>
     list_all (\<lambda>e. \<not> better side (fst e) (fst best)) tr1"
proof (induction trace)
  case Nil
  then show ?case by simp
next
  case (Cons e es)
  show ?case
  proof (cases "e = best")
    case True
    with Cons.prems have "list_all (\<lambda>x. \<not> better side (fst x) (fst best)) es" by simp
    with True have "e # es = [] @ best # es \<and>
        list_all (\<lambda>e. better side (fst best) (fst e)) [] \<and>
        list_all (\<lambda>e. \<not> better side (fst e) (fst best)) es"
      by simp
    then show ?thesis by blast
  next
    case False
    with Cons.prems have b: "better side (fst best) (fst e)" and k: "kept_first side es best"
      by simp_all
    from Cons.IH[OF k] obtain tr0 tr1 where
      s: "es = tr0 @ best # tr1" "list_all (\<lambda>e. better side (fst best) (fst e)) tr0"
        "list_all (\<lambda>e. \<not> better side (fst e) (fst best)) tr1"
      by blast
    from s b have "e # es = (e # tr0) @ best # tr1 \<and>
        list_all (\<lambda>e. better side (fst best) (fst e)) (e # tr0) \<and>
        list_all (\<lambda>e. \<not> better side (fst e) (fst best)) tr1"
      by simp
    then show ?thesis by blast
  qed
qed

lemma move_averages_split:
  "move_averages L A limit side board flags depth breadth chooser ms st =
     Inr (tr0 @ (a, m) # tr1, st') \<Longrightarrow>
   \<exists>pre post st0 vals st1. ms = pre @ m # post \<and>
     move_averages L A limit side board flags depth breadth chooser pre st = Inr (tr0, st0) \<and>
     child_result L (\<lambda>s b f. playouts L limit s b f depth chooser (nat breadth) st0)
       side board flags m = Inr (vals, st1) \<and>
     average A vals breadth = Inr a \<and>
     move_averages L A limit side board flags depth breadth chooser post st1 = Inr (tr1, st')"
proof (induction tr0 arbitrary: ms st)
  case Nil
  from Nil obtain x xs where ms: "ms = x # xs" by (cases ms) auto
  from Nil[unfolded ms] obtain vals st1 where
    c: "child_result L (\<lambda>s b f. playouts L limit s b f depth chooser (nat breadth) st)
          side board flags x = Inr (vals, st1)"
    by (auto split: sum.splits)
  with Nil[unfolded ms] obtain av where av: "average A vals breadth = Inr av"
    by (auto split: sum.splits)
  with c Nil[unfolded ms] have
    r: "move_averages L A limit side board flags depth breadth chooser xs st1 = Inr (tr1, st')"
    and e: "av = a" "x = m"
    by (auto split: sum.splits)
  have "ms = [] @ m # xs" using ms e by simp
  moreover have "move_averages L A limit side board flags depth breadth chooser [] st = Inr ([], st)"
    by simp
  ultimately show ?case using c av r e by blast
next
  case (Cons e0 tr0)
  from Cons.prems obtain x xs where ms: "ms = x # xs" by (cases ms) auto
  from Cons.prems[unfolded ms] obtain vals st1 where
    c: "child_result L (\<lambda>s b f. playouts L limit s b f depth chooser (nat breadth) st)
          side board flags x = Inr (vals, st1)"
    by (auto split: sum.splits)
  with Cons.prems[unfolded ms] obtain av where av: "average A vals breadth = Inr av"
    by (auto split: sum.splits)
  with c Cons.prems[unfolded ms] have
    r: "move_averages L A limit side board flags depth breadth chooser xs st1 =
          Inr (tr0 @ (a, m) # tr1, st')"
    and e: "e0 = (av, x)"
    by (auto split: sum.splits)
  from Cons.IH[OF r] obtain pre post st0 vals' st2 where
    ih: "xs = pre @ m # post"
      "move_averages L A limit side board flags depth breadth chooser pre st1 = Inr (tr0, st0)"
      "child_result L (\<lambda>s b f. playouts L limit s b f depth chooser (nat breadth) st0)
         side board flags m = Inr (vals', st2)"
      "average A vals' breadth = Inr a"
      "move_averages L A limit side board flags depth breadth chooser post st2 = Inr (tr1, st')"
    by blast
  have "ms = (x # pre) @ m # post" using ms ih(1) by simp
  moreover have "move_averages L A limit side board flags depth breadth chooser (x # pre) st =
      Inr (e0 # tr0, st0)"
    using c av ih(2) e by simp
  ultimately show ?case using ih(3,4,5) by blast
qed

section \<open>The recursion limit\<close>

text \<open>
  A call of minimax or alphabeta with \<open>0 \<le> depth < limit\<close> never reaches the recursion
  limit: RecursionError is the outcome of negative depths (and of limits too small for
  the depth) only.
\<close>

lemma child_result_range:
  "\<forall>s b f. rec s b f \<noteq> r \<Longrightarrow> child_result L rec side board flags m \<noteq> r"
  by (simp add: child_result_def split: prod.splits)

lemma minimax_max_within_limit:
  "\<forall>m\<in>set ms. child_result L rec side board flags m \<noteq> Inl RecursionError \<Longrightarrow>
   minimax_max L rec side board flags ms st \<noteq> Inl RecursionError"
proof (induction ms arbitrary: st)
  case Nil
  then show ?case by simp
next
  case (Cons a ms)
  obtain h bm bl T where st: "st = (h, bm, bl, T)" by (cases st) auto
  from Cons show ?case
    unfolding st minimax_max_step by (auto split: sum.splits)
qed

lemma minimax_min_within_limit:
  "\<forall>m\<in>set ms. child_result L rec side board flags m \<noteq> Inl RecursionError \<Longrightarrow>
   minimax_min L rec side board flags ms st \<noteq> Inl RecursionError"
proof (induction ms arbitrary: st)
  case Nil
  then show ?case by simp
next
  case (Cons a ms)
  obtain h bm bl T where st: "st = (h, bm, bl, T)" by (cases st) auto
  from Cons show ?case
    unfolding st minimax_min_step by (auto split: sum.splits)
qed

lemma alphabeta_max_within_limit:
  "\<forall>m\<in>set ms. \<forall>a b. child_result L (\<lambda>s b' f. rec s b' f a b) side board flags m
       \<noteq> Inl RecursionError \<Longrightarrow>
   alphabeta_max L rec side board flags ms st alpha beta \<noteq> Inl RecursionError"
proof (induction ms arbitrary: st alpha)
  case Nil
  then show ?case by simp
next
  case (Cons a ms)
  obtain h bm bl T where st: "st = (h, bm, bl, T)" by (cases st) auto
  from Cons show ?case
    unfolding st alphabeta_max_step by (auto split: sum.splits)
qed

lemma alphabeta_min_within_limit:
  "\<forall>m\<in>set ms. \<forall>a b. child_result L (\<lambda>s b' f. rec s b' f a b) side board flags m
       \<noteq> Inl RecursionError \<Longrightarrow>
   alphabeta_min L rec side board flags ms st alpha beta \<noteq> Inl RecursionError"
proof (induction ms arbitrary: st beta)
  case Nil
  then show ?case by simp
next
  case (Cons a ms)
  obtain h bm bl T where st: "st = (h, bm, bl, T)" by (cases st) auto
  from Cons show ?case
    unfolding st alphabeta_min_step by (auto split: sum.splits)
qed

lemma minimax_within_limit:
  "0 \<le> depth \<Longrightarrow> nat depth < limit \<Longrightarrow>
   minimax L limit side board flags depth \<noteq> Inl RecursionError"
proof (induction limit arbitrary: side board flags depth)
  case 0
  then show ?case by simp
next
  case (Suc n)
  show ?case
  proof (cases "depth = 0")
    case True
    then show ?thesis by simp
  next
    case False
    with Suc.prems have "0 \<le> depth - 1" "nat (depth - 1) < n" by auto
    from Suc.IH[OF this] have
      c: "child_result L (\<lambda>s b f. minimax L n s b f (depth - 1)) side board flags m
            \<noteq> Inl RecursionError" for m
      by (intro child_result_range) simp
    show ?thesis
    proof (cases "generateMoves L side board flags")
      case Nil
      with False show ?thesis by simp
    next
      case (Cons m0 ms)
      with False c minimax_max_within_limit[of "m0 # ms" L "\<lambda>s b f. minimax L n s b f (depth - 1)"
          side board flags "(MInf, m0, [], MoveTree [])"]
        minimax_min_within_limit[of "m0 # ms" L "\<lambda>s b f. minimax L n s b f (depth - 1)"
          side board flags "(PInf, m0, [], MoveTree [])"]
      show ?thesis
        by (auto simp del: minimax_max.simps minimax_min.simps split: sum.splits)
    qed
  qed
qed

lemma alphabeta_within_limit:
  "0 \<le> depth \<Longrightarrow> nat depth < limit \<Longrightarrow>
   alphabeta L limit side board flags depth alpha beta \<noteq> Inl RecursionError"
proof (induction limit arbitrary: side board flags depth alpha beta)
  case 0
  then show ?case by simp
next
  case (Suc n)
  show ?case
  proof (cases "depth = 0")
    case True
    then show ?thesis by simp
  next
    case False
    with Suc.prems have "0 \<le> depth - 1" "nat (depth - 1) < n" by auto
    from Suc.IH[OF this] have
      c: "child_result L (\<lambda>s b f. alphabeta L n s b f (depth - 1) a b') side board flags m
            \<noteq> Inl RecursionError" for m a b'
      by (intro child_result_range) simp
    show ?thesis
    proof (cases "generateMoves L side board flags")
      case Nil
      with False show ?thesis by simp
    next
      case (Cons m0 ms)
      with False c alphabeta_max_within_limit[of "m0 # ms" L "\<lambda>s b f. alphabeta L n s b f (depth - 1)"
          side board flags "(MInf, m0, [], MoveTree [])" alpha beta]
        alphabeta_min_within_limit[of "m0 # ms" L "\<lambda>s b f. alphabeta L n s b f (depth - 1)"
          side board flags "(PInf, m0, [], MoveTree [])" alpha beta]
      show ?thesis
        by (auto simp del: alphabeta_max.simps alphabeta_min.simps split: sum.splits)
    qed
  qed
qed

section \<open>Depth 0\<close>

text \<open>
  C6. At depth 0, minimax returns exactly \<^verbatim>\<open>(evaluate(board), [], {})\<close> for every side,
  board and flags, and so does alphabeta for every alpha and beta (in any call the
  interpreter admits at all, that is at a limit of at least one frame).
\<close>

theorem depth0_identity:
  "minimax L (Suc limit) side board flags 0 = Inr (Fin (evaluate L board), [], MoveTree []) \<and>
   alphabeta L (Suc limit) side board flags 0 alpha beta =
     Inr (Fin (evaluate L board), [], MoveTree [])"
  by simp

section \<open>alphabeta against minimax\<close>

text \<open>
  Pruning alone changes neither the value nor the moveList: with the default bounds
  \<open>alpha = -inf\<close> and \<open>beta = +inf\<close>, alphabeta returns the value and the moveList of
  minimax on the same side, board, flags and depth, whenever minimax returns a result;
  the moveTree may differ. (A result of minimax forces \<open>depth \<ge> 0\<close> and a legal move at
  every position it visits above depth 0.)
\<close>

theorem alphabeta_agrees_where_minimax_returns:
  assumes "minimax L limit side board flags depth = Inr (v, ml, t)"
  shows "\<exists>t'. alphabeta L limit side board flags depth MInf PInf = Inr (v, ml, t')"
  using assms by (rule alphabeta_default_bounds)

text \<open>
  The toy game from position 0 at depth 2: minimax returns value 0 and the moves
  \<open>+1\<close>, \<open>-1\<close>, and alphabeta the same.
\<close>

theorem alphabeta_agrees_witness:
  "minimax toy 3 False (board_at 0) () 2 =
     Inr (Fin 0, [([0], [1], ()), ([1], [0], ())], MoveTree [(1, MoveTree [(- 1, MoveTree [])])]) \<and>
   (\<exists>t'. alphabeta toy 3 False (board_at 0) () 2 MInf PInf =
     Inr (Fin 0, [([0], [1], ()), ([1], [0], ())], t'))"
proof -
  have m: "minimax toy 3 False (board_at 0) () 2 =
     Inr (Fin 0, [([0], [1], ()), ([1], [0], ())], MoveTree [(1, MoveTree [(- 1, MoveTree [])])])"
    by code_simp
  from alphabeta_agrees_where_minimax_returns[OF m] m show ?thesis by simp
qed

text \<open>
  C1. The claim asks that alphabeta with the default bounds returns the value and the
  moveList of minimax for every side, board, flags and depth \<open>d \<ge> 0\<close>. The code does
  not: in \<^const>\<open>cut_game\<close> at depth 3, minimax reaches position 6, which has no move, above
  depth 0 and raises IndexError at \<^verbatim>\<open>moves[0]\<close>, while alphabeta cuts the loop of
  position 2 before position 6 and returns the value 5 and a moveList. The two
  functions differ only through the missing test for an empty move list, which the
  baseline \<^const>\<open>random_move\<close> makes.
\<close>

theorem alphabeta_returns_where_minimax_raises:
  "minimax cut_game 4 False (board_at 0) () 3 = Inl IndexError \<and>
   alphabeta cut_game 4 False (board_at 0) () 3 MInf PInf =
     Inr (Fin 5, [([0], [1], ()), ([1], [3], ()), ([3], [4], ())],
       MoveTree [(1, MoveTree [(2, MoveTree [(1, MoveTree [])])]),
                 (2, MoveTree [(3, MoveTree [(2, MoveTree [])])])])"
  by code_simp

section \<open>Positions without a legal move\<close>

text \<open>
  C2. The claim asks that minimax, alphabeta and stochastic return
  \<^verbatim>\<open>(evaluate(board), [], {})\<close> when generateMoves yields no move and the depth is
  above 0. The code does not: each of them reads \<^verbatim>\<open>moves[0]\<close> before anything else
  and raises IndexError (stochastic at every depth and breadth), whereas the baseline
  \<^const>\<open>random_move\<close> tests \<^verbatim>\<open>len(moves) > 0\<close> first.
\<close>

theorem no_moves_raise_IndexError:
  assumes "generateMoves L side board flags = []" and "depth \<noteq> 0"
  shows "minimax L (Suc limit) side board flags depth = Inl IndexError \<and>
         alphabeta L (Suc limit) side board flags depth alpha beta = Inl IndexError \<and>
         stochastic L A (Suc limit) side board flags depth breadth chooser st = Inl IndexError"
  using assms by simp

text \<open>
  The toy game at position 3, where the maximizer has no move, at depth 2: the
  specification expects value 3 and an empty moveList there.
\<close>

theorem no_moves_raise_IndexError_toy:
  "generateMoves toy False (board_at 3) () = [] \<and>
   minimax toy 3 False (board_at 3) () 2 = Inl IndexError \<and>
   alphabeta toy 3 False (board_at 3) () 2 MInf PInf = Inl IndexError \<and>
   stochastic toy exact_arith 3 False (board_at 3) () 2 1 scripted [] = Inl IndexError"
proof -
  have g: "generateMoves toy False (board_at 3) () = []"
    by (simp add: toy_def)
  have d: "(2::int) \<noteq> 0" by simp
  from no_moves_raise_IndexError[OF g d, of 2 MInf PInf exact_arith 1 scripted "[]"] g
  show ?thesis by (simp add: numeral_3_eq_3)
qed

text \<open>
  C9. When there is no legal move, the baseline random returns
  \<^verbatim>\<open>(evaluate(board), [], {})\<close> and never calls the chooser: the result is the same for
  every chooser, and the chooser's state comes back unchanged.
\<close>

theorem random_move_without_moves:
  assumes "generateMoves L side board flags = []"
  shows "random_move L side board flags chooser st =
           Inr ((Fin (evaluate L board), [], MoveTree []), st)"
  using assms by (simp add: random_move_def)

text \<open>The toy game at position 3, with a chooser that would raise if it were called.\<close>

theorem random_move_without_moves_toy:
  "generateMoves toy False (board_at 3) () = [] \<and>
   random_move toy False (board_at 3) () (\<lambda>moves st. Inl IndexError) () =
     Inr ((Fin 3, [], MoveTree []), ())"
proof -
  have g: "generateMoves toy False (board_at 3) () = []"
    by (simp add: toy_def)
  from random_move_without_moves[OF g, of "\<lambda>moves st. Inl IndexError" "()"] g
  show ?thesis by (simp add: toy_def positional_def board_at_def)
qed

section \<open>The playout of stochasticHelper\<close>

text \<open>
  C10. Whenever stochasticHelper returns, its depth \<open>d\<close> is not negative and its
  moveTree is a linear chain: exactly one key at every nesting level, nesting depth
  exactly \<open>d\<close>, the empty dict where the recursion reached depth 0. The keys are, from
  the top, the keys of the moves that the chooser selected ply by ply
  (\<^const>\<open>chosen_path\<close>): the chooser is given the moves of the position reached by the moves
  it selected before, in the state it left. The value returned is that of the board at
  the end of this path, and the state returned the state of the chooser there.
\<close>

theorem stochasticHelper_chain:
  assumes "stochasticHelper L limit side board flags depth chooser st = Inr ((v, t), st')"
  shows "0 \<le> depth \<and> is_chain (nat depth) t \<and>
         (depth \<noteq> 0 \<longrightarrow>
           (\<exists>m st1 sub. chooser (generateMoves L side board flags) st = Inr (m, st1) \<and>
              t = MoveTree [(key_of L m, sub)])) \<and>
         (\<exists>ks leaf. chosen_path L (nat depth) side board flags chooser st = Inr (ks, leaf, st') \<and>
            length ks = nat depth \<and> t = chain_of ks \<and> v = evaluate L leaf)"
  using assms
proof (induction limit arbitrary: side board flags depth st v t st')
  case 0
  then show ?case by simp
next
  case (Suc n)
  show ?case
  proof (cases "depth = 0")
    case True
    with Suc.prems show ?thesis by auto
  next
    case False
    from Suc.prems False obtain fro to promote st1 where
      ch: "chooser (generateMoves L side board flags) st = Inr ((fro, to, promote), st1)"
      by (auto split: sum.splits)
    obtain ns nb nf where mk: "makeMove L side board fro to flags promote = (ns, nb, nf)"
      by (cases "makeMove L side board fro to flags promote") auto
    from Suc.prems False ch mk obtain sub where
      rec: "stochasticHelper L n ns nb nf (depth - 1) chooser st1 = Inr ((v, sub), st')" and
      t: "t = MoveTree [(encode L fro to promote, sub)]"
      by (auto split: sum.splits)
    from Suc.IH[OF rec] obtain ks leaf where
      ih: "0 \<le> depth - 1" "is_chain (nat (depth - 1)) sub"
        "chosen_path L (nat (depth - 1)) ns nb nf chooser st1 = Inr (ks, leaf, st')"
        "length ks = nat (depth - 1)" "sub = chain_of ks" "v = evaluate L leaf"
      by blast
    have d: "nat depth = Suc (nat (depth - 1))" using ih(1) by simp
    have p: "chosen_path L (nat depth) side board flags chooser st =
        Inr (key_of L (fro, to, promote) # ks, leaf, st')"
      unfolding d using ch mk ih(3) by (simp add: child_result_def)
    have k: "key_of L (fro, to, promote) = encode L fro to promote"
      by (simp add: key_of_def)
    have c1: "is_chain (nat depth) t" unfolding d using ih(2) t by simp
    have c2: "\<exists>m st1 sub. chooser (generateMoves L side board flags) st = Inr (m, st1) \<and>
        t = MoveTree [(key_of L m, sub)]"
      using ch t k by metis
    have c3: "\<exists>ks leaf. chosen_path L (nat depth) side board flags chooser st = Inr (ks, leaf, st') \<and>
        length ks = nat depth \<and> t = chain_of ks \<and> v = evaluate L leaf"
      by (rule exI[of _ "key_of L (fro, to, promote) # ks"], rule exI[of _ leaf])
         (use p ih(4,5,6) t k d in simp)
    from ih(1) c1 c2 c3 show ?thesis by simp
  qed
qed

text \<open>
  The toy game from position 0 at depth 2 with the chooser that takes the first move:
  the chooser selects the steps \<open>+1\<close> and \<open>-1\<close>, and the tree is the chain of these
  two keys and no other chain.
\<close>

theorem stochasticHelper_chain_toy:
  "stochasticHelper toy 3 False (board_at 0) () 2 scripted [] =
     Inr ((0, MoveTree [(1, MoveTree [(- 1, MoveTree [])])]), []) \<and>
   is_chain (nat 2) (MoveTree [(1, MoveTree [(- 1::int, MoveTree [])])]) \<and>
   (\<exists>m st1 sub. scripted (generateMoves toy False (board_at 0) ()) [] = Inr (m, st1) \<and>
      MoveTree [(1, MoveTree [(- 1, MoveTree [])])] = MoveTree [(key_of toy m, sub)]) \<and>
   (\<exists>ks leaf. chosen_path toy (nat 2) False (board_at 0) () scripted [] = Inr (ks, leaf, []) \<and>
      length ks = nat 2 \<and> MoveTree [(1, MoveTree [(- 1, MoveTree [])])] = chain_of ks \<and>
      0 = evaluate toy leaf) \<and>
   chosen_path toy (nat 2) False (board_at 0) () scripted [] = Inr ([1, - 1], board_at 0, []) \<and>
   chain_of [1, - 1::int] = MoveTree [(1, MoveTree [(- 1, MoveTree [])])] \<and>
   chain_of [1, 99::int] \<noteq> MoveTree [(1, MoveTree [(- 1, MoveTree [])])] \<and>
   \<not> is_chain 2 (MoveTree [(1, MoveTree [(- 1, MoveTree [(0::int, MoveTree [])])])])"
proof -
  have h: "stochasticHelper toy 3 False (board_at 0) () 2 scripted [] =
     Inr ((0, MoveTree [(1, MoveTree [(- 1, MoveTree [])])]), [])"
    by code_simp
  have n: "\<not> is_chain 2 (MoveTree [(1, MoveTree [(- 1, MoveTree [(0::int, MoveTree [])])])])"
    by code_simp
  have p: "chosen_path toy (nat 2) False (board_at 0) () scripted [] = Inr ([1, - 1], board_at 0, [])"
    by code_simp
  have c: "chain_of [1, - 1::int] = MoveTree [(1, MoveTree [(- 1, MoveTree [])])]"
    by simp
  have c': "chain_of [1, 99::int] \<noteq> MoveTree [(1, MoveTree [(- 1, MoveTree [])])]"
    by simp
  have d: "(2::int) \<noteq> 0" by simp
  note all = stochasticHelper_chain[OF h]
  from all have a1: "is_chain (nat 2) (MoveTree [(1, MoveTree [(- 1::int, MoveTree [])])])"
    by (rule conjunct2[THEN conjunct1])
  from all[THEN conjunct2, THEN conjunct2, THEN conjunct1] d have
    a2: "\<exists>m st1 sub. scripted (generateMoves toy False (board_at 0) ()) [] = Inr (m, st1) \<and>
      MoveTree [(1, MoveTree [(- 1, MoveTree [])])] = MoveTree [(key_of toy m, sub)]"
    by (rule mp)
  from all have a3: "\<exists>ks leaf. chosen_path toy (nat 2) False (board_at 0) () scripted [] = Inr (ks, leaf, []) \<and>
      length ks = nat 2 \<and> MoveTree [(1, MoveTree [(- 1, MoveTree [])])] = chain_of ks \<and>
      0 = evaluate toy leaf"
    by (rule conjunct2[THEN conjunct2, THEN conjunct2])
  from h a1 a2 a3 p c c' n show ?thesis by (intro conjI)
qed

section \<open>Arguments out of range\<close>

text \<open>
  C4. No function validates its depth or breadth, and none signals an invalid argument.
  A call with a negative depth never returns a result: minimax and alphabeta step past
  depth 0 and descend until a position without legal move raises IndexError or the
  recursion limit is reached, and so do the playouts of stochastic when the breadth is
  positive. When there is a legal move, stochastic with breadth 0 raises
  ZeroDivisionError at \<^verbatim>\<open>sum / breadth\<close>, after it has applied the first move, and with
  a negative breadth it draws no sample and returns the value 0, the first generated
  move and the empty moveTree, at every depth.
\<close>

theorem parameters_are_not_validated:
  "(depth < 0 \<longrightarrow>
      (minimax L limit side board flags depth = Inl IndexError \<or>
       minimax L limit side board flags depth = Inl RecursionError) \<and>
      (alphabeta L limit side board flags depth alpha beta = Inl IndexError \<or>
       alphabeta L limit side board flags depth alpha beta = Inl RecursionError) \<and>
      (0 < breadth \<longrightarrow> (\<exists>e. stochastic L A limit side board flags depth breadth chooser st = Inl e))) \<and>
   (generateMoves L side board flags = m # ms \<longrightarrow>
      stochastic L A (Suc limit) side board flags d 0 chooser st = Inl ZeroDivisionError \<and>
      (b < 0 \<longrightarrow>
         stochastic L A (Suc limit) side board flags d b chooser st =
           Inr ((Fin 0, [m], MoveTree []), st)))"
  using minimax_negative_depth[of depth L limit side board flags]
    alphabeta_negative_depth[of depth L limit side board flags alpha beta]
    stochastic_negative_depth[of depth breadth L A limit side board flags chooser st]
    stochastic_zero_breadth[of L side board flags A limit d chooser st]
    stochastic_negative_breadth[of b L side board flags m ms A limit d chooser st]
  by simp

text \<open>
  The toy game at position 2, where the maximizer's only move leads to a position
  without moves: depth \<open>-1\<close>, breadths 2, 0 and \<open>-2\<close>.
\<close>

theorem parameters_are_not_validated_toy:
  "generateMoves toy False (board_at 2) () = [([2], [3], ())] \<and>
   minimax toy 4 False (board_at 2) () (- 1) = Inl IndexError \<and>
   alphabeta toy 4 False (board_at 2) () (- 1) MInf PInf = Inl IndexError \<and>
   (\<exists>e. stochastic toy exact_arith 4 False (board_at 2) () (- 1) 2 scripted [] = Inl e) \<and>
   stochastic toy exact_arith (Suc 4) False (board_at 2) () 1 0 scripted [] = Inl ZeroDivisionError \<and>
   stochastic toy exact_arith (Suc 4) False (board_at 2) () 1 (- 2) scripted [] =
     Inr ((Fin 0, [([2], [3], ())], MoveTree []), [])"
proof -
  have g: "generateMoves toy False (board_at 2) () = [([2], [3], ())]"
    by (simp add: toy_def)
  have m: "minimax toy 4 False (board_at 2) () (- 1) = Inl IndexError"
    by code_simp
  have a: "alphabeta toy 4 False (board_at 2) () (- 1) MInf PInf = Inl IndexError"
    by code_simp
  from parameters_are_not_validated[where depth = "- 1" and L = toy and A = exact_arith and limit = 4
      and side = False and board = "board_at 2" and flags = "()" and alpha = MInf
      and beta = PInf and breadth = 2 and chooser = scripted and st = "[]"
      and m = "([2], [3], ())" and ms = "[]" and d = 1 and b = "- 2"] g m a
  show ?thesis by simp
qed

text \<open>
  A negative depth together with a negative breadth is accepted without any signal:
  stochastic returns a result.
\<close>

theorem negative_breadth_returns:
  "stochastic toy exact_arith 1 False (board_at 0) () (- 1) (- 2) scripted [] =
     Inr ((Fin 0, [([0], [1], ())], MoveTree []), [])"
  by code_simp

section \<open>The size of the move trees\<close>

text \<open>
  C7. For the same side, board, flags and depth, the moveTree that alphabeta returns with
  its default bounds has at most as many nodes as the moveTree that minimax returns. The
  key encoder is taken to meet its contract (distinct moves of a position have distinct
  keys), and the trees compared are those of a call on which minimax returns; alphabeta
  then returns too.
\<close>

theorem pruning_never_grows_tree:
  assumes "keys_distinguish_moves L"
    and "minimax L limit side board flags depth = Inr (v, ml, t)"
  shows "\<exists>t'. alphabeta L limit side board flags depth MInf PInf = Inr (v, ml, t') \<and>
              nodeCount t' \<le> nodeCount t"
proof -
  from alphabeta_default_bounds[OF assms(2)] obtain t' where
    ab: "alphabeta L limit side board flags depth MInf PInf = Inr (v, ml, t')" ..
  from alphabeta_tree_le[OF assms(1) assms(2) ab] ab show ?thesis by blast
qed

text \<open>
  In \<^const>\<open>prune_game\<close> at depth 3 the tree of minimax has 8 nodes; alphabeta leaves the
  loop of position 2 after its first move and its tree cannot have more.
\<close>

theorem pruning_never_grows_tree_witness:
  "keys_distinguish_moves prune_game \<and>
   minimax prune_game 4 False (board_at 0) () 3 =
     Inr (Fin 5, [([0], [1], ()), ([1], [3], ()), ([3], [4], ())],
       MoveTree [(([0], [1]), MoveTree [(([1], [3]), MoveTree [(([3], [4]), MoveTree [])])]),
                 (([0], [2]), MoveTree [(([2], [5]), MoveTree [(([5], [7]), MoveTree [])]),
                                        (([2], [6]), MoveTree [(([6], [8]), MoveTree [])])])]) \<and>
   (\<exists>t'. alphabeta prune_game 4 False (board_at 0) () 3 MInf PInf =
       Inr (Fin 5, [([0], [1], ()), ([1], [3], ()), ([3], [4], ())], t') \<and>
     nodeCount t' \<le> 8)"
proof -
  let ?t = "MoveTree [(([0::int], [1::int]), MoveTree [(([1], [3]), MoveTree [(([3], [4]), MoveTree [])])]),
                 (([0], [2]), MoveTree [(([2], [5]), MoveTree [(([5], [7]), MoveTree [])]),
                                        (([2], [6]), MoveTree [(([6], [8]), MoveTree [])])])]"
  have m: "minimax prune_game 4 False (board_at 0) () 3 =
     Inr (Fin 5, [([0], [1], ()), ([1], [3], ()), ([3], [4], ())], ?t)"
    by code_simp
  have n: "nodeCount ?t = 8"
    by simp
  from pruning_never_grows_tree[OF prune_game_keys m] obtain t' where
    ab: "alphabeta prune_game 4 False (board_at 0) () 3 MInf PInf =
       Inr (Fin 5, [([0], [1], ()), ([1], [3], ()), ([3], [4], ())], t')" and
    le: "nodeCount t' \<le> nodeCount ?t" by blast
  from le have "nodeCount t' \<le> 8" unfolding n .
  with prune_game_keys m ab show ?thesis by blast
qed

section \<open>The merge of the sampled trees\<close>

text \<open>
  C3. The claim asks for a recursive union of the sampled trees at every nesting level.
  The code merges with \<^verbatim>\<open>moveTree[encodedMove].update(moveTree_d1)\<close>, which is a union
  one level deep: under a key that two playouts share at the second ply, the subtree of
  the later playout replaces that of the earlier one. In \<^const>\<open>fork_game\<close> at depth 3 and
  breadth 2, the two playouts of the move to position 1 go through position 2 to
  position 3 and to position 4; the returned tree holds the step to 4 only, and the
  step to 3, which was evaluated, is gone.
\<close>

theorem stochastic_merge_is_shallow:
  "stochasticHelper fork_game 3 True (board_at 1) () 2 scripted [0, 0, 0, 1] =
     Inr ((1, MoveTree [(1, MoveTree [(1, MoveTree [])])]), [0, 1]) \<and>
   stochasticHelper fork_game 3 True (board_at 1) () 2 scripted [0, 1] =
     Inr ((3, MoveTree [(1, MoveTree [(2, MoveTree [])])]), []) \<and>
   stochastic fork_game exact_arith 4 False (board_at 0) () 3 2 scripted [0, 0, 0, 1] =
     Inr ((Fin 2, [([0], [1], ())],
           MoveTree [(1, MoveTree [(1, MoveTree [(2, MoveTree [])])])]), [])"
  by code_simp

section \<open>Ties\<close>

text \<open>
  C5. In minimax, alphabeta and stochastic the running best is replaced only on strict
  improvement of the value (greater for side False, less for side True): the returned
  value and first move are the \<^const>\<open>running_best\<close> of the values the loop compared, in
  generation order, started at the infinity of the side with the first generated move.
  So the move kept is the first one, in generation order, that attains the extremum of
  these values (\<^const>\<open>kept_first\<close>): a later move of equal value does not replace it. The
  values compared are those of all moves in minimax (\<^const>\<open>visits\<close>), those of the moves up
  to the cut in alphabeta (\<^const>\<open>pruned_visits\<close>), and in stochastic the averages of all
  moves as the arithmetic of the interpreter returns them (\<^const>\<open>move_averages\<close>): two moves
  whose averages round to the same double are tied.
\<close>

theorem strict_improvement_keeps_first:
  "(depth \<noteq> 0 \<and> minimax L (Suc limit) side board flags depth = Inr (v, ml, t) \<longrightarrow>
      (\<exists>trace bm bl.
         visits L (\<lambda>s b f. minimax L limit s b f (depth - 1)) side board flags
           (generateMoves L side board flags) trace \<and>
         (v, bm, bl) = running_best side
            (if side then PInf else MInf, hd (generateMoves L side board flags), []) trace \<and>
         ml = bm # bl \<and> kept_first side trace (v, bm, bl))) \<and>
   (depth \<noteq> 0 \<and> alphabeta L (Suc limit) side board flags depth alpha beta = Inr (v', ml', t') \<longrightarrow>
      (\<exists>trace bm bl.
         pruned_visits L (\<lambda>s b f. alphabeta L limit s b f (depth - 1)) side board flags
           (generateMoves L side board flags) (if side then PInf else MInf) alpha beta = Inr trace \<and>
         (v', bm, bl) = running_best side
            (if side then PInf else MInf, hd (generateMoves L side board flags), []) trace \<and>
         ml' = bm # bl \<and> kept_first side trace (v', bm, bl))) \<and>
   (stochastic L A (Suc limit) side board flags d breadth chooser st = Inr ((a, sml, stree), st') \<longrightarrow>
      (\<exists>trace bm.
         move_averages L A limit side board flags d breadth chooser
           (generateMoves L side board flags) st = Inr (trace, st') \<and>
         (a, bm) = running_best side
            (if side then PInf else MInf, hd (generateMoves L side board flags)) trace \<and>
         sml = [bm] \<and> kept_first side trace (a, bm)))"
  using minimax_keeps_first[of depth L limit side board flags v ml t]
    alphabeta_keeps_first[of depth L limit side board flags alpha beta v' ml' t']
    stochastic_keeps_first[of L A limit side board flags d breadth chooser st a sml stree st']
  by blast

text \<open>
  \<^const>\<open>tie_game\<close> at depth 1 for the maximizer: the moves are worth 4, 7 and 7. minimax
  returns the second move, not the third. alphabeta with \<open>beta = 5\<close> compares the first
  two moves only and returns the second. stochastic with breadth 1 and the arithmetic
  \<^const>\<open>coarse_arith\<close>, in which the three averages round to 4, returns the first move.
\<close>

theorem strict_improvement_keeps_first_witness:
  "minimax tie_game 2 False (board_at 0) () 1 =
     Inr (Fin 7, [([0], [2], ())],
          MoveTree [(1, MoveTree []), (2, MoveTree []), (3, MoveTree [])]) \<and>
   alphabeta tie_game 2 False (board_at 0) () 1 MInf (Fin 5) =
     Inr (Fin 7, [([0], [2], ())], MoveTree [(1, MoveTree []), (2, MoveTree [])]) \<and>
   stochastic tie_game coarse_arith 2 False (board_at 0) () 1 1 scripted [] =
     Inr ((Fin 4, [([0], [1], ())],
          MoveTree [(1, MoveTree []), (2, MoveTree []), (3, MoveTree [])]), []) \<and>
   (\<exists>trace bm bl.
      visits tie_game (\<lambda>s b f. minimax tie_game 1 s b f (1 - 1)) False (board_at 0) ()
        (generateMoves tie_game False (board_at 0) ()) trace \<and>
      [([0], [2], ())] = bm # bl \<and> kept_first False trace (Fin 7, bm, bl)) \<and>
   (\<exists>trace bm bl.
      pruned_visits tie_game (\<lambda>s b f. alphabeta tie_game 1 s b f (1 - 1)) False (board_at 0) ()
        (generateMoves tie_game False (board_at 0) ()) MInf MInf (Fin 5) = Inr trace \<and>
      (Fin 7, bm, bl) = running_best False
         (MInf, hd (generateMoves tie_game False (board_at 0) ()), []) trace \<and>
      [([0], [2], ())] = bm # bl \<and> kept_first False trace (Fin 7, bm, bl)) \<and>
   (\<exists>trace bm.
      move_averages tie_game coarse_arith 1 False (board_at 0) () 1 1 scripted
        (generateMoves tie_game False (board_at 0) ()) [] = Inr (trace, []) \<and>
      (Fin 4, bm) = running_best False
         (MInf, hd (generateMoves tie_game False (board_at 0) ())) trace \<and>
      [([0], [1], ())] = [bm] \<and> kept_first False trace (Fin 4, bm)) \<and>
   visits tie_game (\<lambda>s b f. minimax tie_game 1 s b f (1 - 1)) False (board_at 0) ()
     (generateMoves tie_game False (board_at 0) ())
     [(Fin 4, ([0], [1], ()), []), (Fin 7, ([0], [2], ()), []), (Fin 7, ([0], [3], ()), [])] \<and>
   pruned_visits tie_game (\<lambda>s b f. alphabeta tie_game 1 s b f (1 - 1)) False (board_at 0) ()
     (generateMoves tie_game False (board_at 0) ()) MInf MInf (Fin 5) =
     Inr [(Fin 4, ([0], [1], ()), []), (Fin 7, ([0], [2], ()), [])] \<and>
   move_averages tie_game coarse_arith 1 False (board_at 0) () 1 1 scripted
     (generateMoves tie_game False (board_at 0) ()) [] =
     Inr ([(Fin 4, ([0], [1], ())), (Fin 4, ([0], [2], ())), (Fin 4, ([0], [3], ()))], []) \<and>
   kept_first False
     [(Fin 4, ([0::int], [1::int], ()), []), (Fin 7, ([0], [2], ()), []), (Fin 7, ([0], [3], ()), [])]
     (Fin 7, ([0], [2], ()), []) \<and>
   \<not> kept_first False
     [(Fin 4, ([0::int], [1::int], ()), []), (Fin 7, ([0], [2], ()), []), (Fin 7, ([0], [3], ()), [])]
     (Fin 7, ([0], [3], ()), []) \<and>
   \<not> kept_first False
     [(Fin 4, ([0::int], [1::int], ())), (Fin 4, ([0], [2], ())), (Fin 4, ([0], [3], ()))]
     (Fin 4, ([0], [2], ()))"
proof -
  let ?T = "MoveTree [(1::int, MoveTree []), (2, MoveTree []), (3, MoveTree [])]"
  have m: "minimax tie_game (Suc 1) False (board_at 0) () 1 = Inr (Fin 7, [([0], [2], ())], ?T)"
    by code_simp
  have a: "alphabeta tie_game (Suc 1) False (board_at 0) () 1 MInf (Fin 5) =
      Inr (Fin 7, [([0], [2], ())], MoveTree [(1, MoveTree []), (2, MoveTree [])])"
    by code_simp
  have s: "stochastic tie_game coarse_arith (Suc 1) False (board_at 0) () 1 1 scripted [] =
      Inr ((Fin 4, [([0], [1], ())], ?T), [])"
    by code_simp
  have d: "(1::int) \<noteq> 0" by simp
  note all = strict_improvement_keeps_first[where depth = 1 and L = tie_game and limit = 1
      and side = False and board = "board_at 0" and flags = "()" and alpha = MInf
      and beta = "Fin 5" and A = coarse_arith
      and d = 1 and breadth = 1 and chooser = scripted and st = "[]"]
  from all[THEN conjunct1, rule_format, OF conjI[OF d m]]
  obtain trace bm bl where
    "visits tie_game (\<lambda>s b f. minimax tie_game 1 s b f (1 - 1)) False (board_at 0) ()
        (generateMoves tie_game False (board_at 0) ()) trace"
    "[([0], [2], ())] = bm # bl" "kept_first False trace (Fin 7, bm, bl)"
    by blast
  then have c1: "\<exists>trace bm bl.
      visits tie_game (\<lambda>s b f. minimax tie_game 1 s b f (1 - 1)) False (board_at 0) ()
        (generateMoves tie_game False (board_at 0) ()) trace \<and>
      [([0], [2], ())] = bm # bl \<and> kept_first False trace (Fin 7, bm, bl)"
    by blast
  have c2: "\<exists>trace bm bl.
      pruned_visits tie_game (\<lambda>s b f. alphabeta tie_game 1 s b f (1 - 1)) False (board_at 0) ()
        (generateMoves tie_game False (board_at 0) ()) MInf MInf (Fin 5) = Inr trace \<and>
      (Fin 7, bm, bl) = running_best False
         (MInf, hd (generateMoves tie_game False (board_at 0) ()), []) trace \<and>
      [([0], [2], ())] = bm # bl \<and> kept_first False trace (Fin 7, bm, bl)"
    using all[THEN conjunct2, THEN conjunct1, rule_format, OF conjI[OF d a]]
    by (simp only: if_False)
  have c3: "\<exists>trace bm.
      move_averages tie_game coarse_arith 1 False (board_at 0) () 1 1 scripted
        (generateMoves tie_game False (board_at 0) ()) [] = Inr (trace, []) \<and>
      (Fin 4, bm) = running_best False
         (MInf, hd (generateMoves tie_game False (board_at 0) ())) trace \<and>
      [([0], [1], ())] = [bm] \<and> kept_first False trace (Fin 4, bm)"
    using all[THEN conjunct2, THEN conjunct2, rule_format, OF s]
    by (simp only: if_False)
  have t1: "visits tie_game (\<lambda>s b f. minimax tie_game 1 s b f (1 - 1)) False (board_at 0) ()
     (generateMoves tie_game False (board_at 0) ())
     [(Fin 4, ([0], [1], ()), []), (Fin 7, ([0], [2], ()), []), (Fin 7, ([0], [3], ()), [])]"
    by (simp add: visits_def child_result_def tie_game_def tie_succs_def tie_score_def)
  have t2: "pruned_visits tie_game (\<lambda>s b f. alphabeta tie_game 1 s b f (1 - 1)) False
     (board_at 0) () (generateMoves tie_game False (board_at 0) ()) MInf MInf (Fin 5) =
     Inr [(Fin 4, ([0], [1], ()), []), (Fin 7, ([0], [2], ()), [])]"
    by code_simp
  have t3: "move_averages tie_game coarse_arith 1 False (board_at 0) () 1 1 scripted
     (generateMoves tie_game False (board_at 0) ()) [] =
     Inr ([(Fin 4, ([0], [1], ())), (Fin 4, ([0], [2], ())), (Fin 4, ([0], [3], ()))], [])"
    by code_simp
  have k1: "kept_first False
     [(Fin 4, ([0::int], [1::int], ()), []), (Fin 7, ([0], [2], ()), []), (Fin 7, ([0], [3], ()), [])]
     (Fin 7, ([0], [2], ()), [])"
    by (simp add: better_def)
  have k2: "\<not> kept_first False
     [(Fin 4, ([0::int], [1::int], ()), []), (Fin 7, ([0], [2], ()), []), (Fin 7, ([0], [3], ()), [])]
     (Fin 7, ([0], [3], ()), [])"
    by (simp add: better_def)
  have k3: "\<not> kept_first False
     [(Fin 4, ([0::int], [1::int], ())), (Fin 4, ([0], [2], ())), (Fin 4, ([0], [3], ()))]
     (Fin 4, ([0], [2], ()))"
    by (simp add: better_def)
  have two: "Suc 1 = 2" by simp
  show ?thesis
    using m a s c1 c2 c3 t1 t2 t3 k1 k2 k3 unfolding two by (intro conjI)
qed

section \<open>The result of stochastic\<close>

text \<open>
  C8. Whenever stochastic returns, its moveList is the one-element list of a generated
  top-level move \<open>m\<close>, with no continuation, and its value is the average of that move:
  \<^verbatim>\<open>range(breadth)\<close> playouts of depth \<open>depth - 1\<close> are drawn from the position after
  \<open>m\<close>, starting in the chooser state \<open>st0\<close> that the samples of the moves before \<open>m\<close>
  left, and the value is the sum of their values, added one by one to 0, divided by
  breadth, as the arithmetic of the interpreter returns it (\<^const>\<open>average\<close>). The move is
  the one the loop kept: the moves before it average strictly worse, and no move after
  it averages better.
\<close>

theorem stochastic_returns_move_and_average:
  assumes "stochastic L A (Suc limit) side board flags depth breadth chooser st =
             Inr ((v, ml, t), st')"
  shows "\<exists>pre m post tr0 st0 vals st1 tr1.
           generateMoves L side board flags = pre @ m # post \<and> ml = [m] \<and>
           move_averages L A limit side board flags depth breadth chooser pre st = Inr (tr0, st0) \<and>
           child_result L (\<lambda>s b f. playouts L limit s b f depth chooser (nat breadth) st0)
             side board flags m = Inr (vals, st1) \<and>
           length vals = nat breadth \<and> average A vals breadth = Inr v \<and>
           move_averages L A limit side board flags depth breadth chooser post st1 = Inr (tr1, st') \<and>
           list_all (\<lambda>e. better side v (fst e)) tr0 \<and>
           list_all (\<lambda>e. \<not> better side (fst e) v) tr1"
proof -
  from stochastic_keeps_first[OF assms] obtain trace bm where
    tr: "move_averages L A limit side board flags depth breadth chooser
           (generateMoves L side board flags) st = Inr (trace, st')"
      "ml = [bm]" "kept_first side trace (v, bm)"
    by blast
  from kept_first_split[OF tr(3)] obtain tr0 tr1 where
    sp: "trace = tr0 @ (v, bm) # tr1"
      "list_all (\<lambda>e. better side v (fst e)) tr0"
      "list_all (\<lambda>e. \<not> better side (fst e) v) tr1"
    by auto
  from move_averages_split[OF tr(1)[unfolded sp(1)]] obtain pre post st0 vals st1 where
    m: "generateMoves L side board flags = pre @ bm # post"
      "move_averages L A limit side board flags depth breadth chooser pre st = Inr (tr0, st0)"
      "child_result L (\<lambda>s b f. playouts L limit s b f depth chooser (nat breadth) st0)
         side board flags bm = Inr (vals, st1)"
      "average A vals breadth = Inr v"
      "move_averages L A limit side board flags depth breadth chooser post st1 = Inr (tr1, st')"
    by blast
  from child_playouts_length[OF m(3)] have "length vals = nat breadth" .
  with m tr(2) sp(2,3) show ?thesis by blast
qed

text \<open>
  \<^const>\<open>prune_game\<close> from position 0 at depth 3 and breadth 2, without rounding: the two
  playouts of the first move are worth 5 and 5, those of the second move, drawn from
  the rest of the script, 9 and 3, and stochastic returns the second move with the
  value 6.
\<close>

theorem stochastic_returns_move_and_average_witness:
  "stochastic prune_game exact_arith 4 False (board_at 0) () 3 2 scripted [0, 0, 0, 0, 1, 0, 0, 0] =
     Inr ((Fin 6, [([0], [2], ())],
       MoveTree
        [(([0], [1]), MoveTree [(([1], [3]), MoveTree [(([3], [4]), MoveTree [])])]),
         (([0], [2]), MoveTree [(([2], [6]), MoveTree [(([6], [8]), MoveTree [])]),
                               (([2], [5]), MoveTree [(([5], [7]), MoveTree [])])])]), []) \<and>
   (\<exists>pre m post tr0 st0 vals st1 tr1.
      generateMoves prune_game False (board_at 0) () = pre @ m # post \<and> [([0], [2], ())] = [m] \<and>
      move_averages prune_game exact_arith 3 False (board_at 0) () 3 2 scripted pre
        [0, 0, 0, 0, 1, 0, 0, 0] = Inr (tr0, st0) \<and>
      child_result prune_game (\<lambda>s b f. playouts prune_game 3 s b f 3 scripted (nat 2) st0)
        False (board_at 0) () m = Inr (vals, st1) \<and>
      length vals = nat 2 \<and> average exact_arith vals 2 = Inr (Fin 6) \<and>
      move_averages prune_game exact_arith 3 False (board_at 0) () 3 2 scripted post st1 =
        Inr (tr1, []) \<and>
      list_all (\<lambda>e. better False (Fin 6) (fst e)) tr0 \<and>
      list_all (\<lambda>e. \<not> better False (fst e) (Fin 6)) tr1) \<and>
   generateMoves prune_game False (board_at 0) () = [([0], [1], ())] @ ([0], [2], ()) # [] \<and>
   move_averages prune_game exact_arith 3 False (board_at 0) () 3 2 scripted [([0], [1], ())]
     [0, 0, 0, 0, 1, 0, 0, 0] = Inr ([(Fin 5, ([0], [1], ()))], [1, 0, 0, 0]) \<and>
   child_result prune_game (\<lambda>s b f. playouts prune_game 3 s b f 3 scripted (nat 2) [1, 0, 0, 0])
     False (board_at 0) () ([0], [2], ()) = Inr ([9, 3], []) \<and>
   average exact_arith [9, 3] 2 = Inr (Fin 6) \<and>
   average exact_arith [9, 3] 2 \<noteq> Inr (Fin 9)"
proof -
  have s: "stochastic prune_game exact_arith (Suc 3) False (board_at 0) () 3 2 scripted
      [0, 0, 0, 0, 1, 0, 0, 0] =
     Inr ((Fin 6, [([0], [2], ())],
       MoveTree
        [(([0], [1]), MoveTree [(([1], [3]), MoveTree [(([3], [4]), MoveTree [])])]),
         (([0], [2]), MoveTree [(([2], [6]), MoveTree [(([6], [8]), MoveTree [])]),
                               (([2], [5]), MoveTree [(([5], [7]), MoveTree [])])])]), [])"
    by code_simp
  have four: "Suc 3 = 4" by simp
  have g: "generateMoves prune_game False (board_at 0) () = [([0], [1], ())] @ ([0], [2], ()) # []"
    by code_simp
  have p: "move_averages prune_game exact_arith 3 False (board_at 0) () 3 2 scripted
     [([0], [1], ())] [0, 0, 0, 0, 1, 0, 0, 0] = Inr ([(Fin 5, ([0], [1], ()))], [1, 0, 0, 0])"
    by code_simp
  have c: "child_result prune_game
     (\<lambda>s b f. playouts prune_game 3 s b f 3 scripted (nat 2) [1, 0, 0, 0])
     False (board_at 0) () ([0], [2], ()) = Inr ([9, 3], [])"
    by code_simp
  have a: "average exact_arith [9, 3] 2 = Inr (Fin 6)"
    by code_simp
  have a': "average exact_arith [9, 3] 2 \<noteq> Inr (Fin 9)"
    unfolding a by simp
  from stochastic_returns_move_and_average[OF s] s[unfolded four] g p c a a'
  show ?thesis by (intro conjI)
qed

end
